theory Spec2Isabelle
  imports Main "HOL-Library.Sublist"
begin

section \<open>Repository entity and options\<close>

text \<open>
  Go's \<open>time.Time\<close>, read through its calendar and clock components (the only part of
  a time value the iterator itself looks at, when it formats \<open>time.Now()\<close>).
\<close>

record Time =
  Year :: int
  Month :: nat
  Day :: nat
  Hour :: nat
  Minute :: nat
  Second :: nat
  Nanosecond :: nat

text \<open>
  \<open>type Repository struct\<close>. Go's \<open>int\<close> is modelled as \<open>int\<close>: the code only compares
  \<open>Size\<close> with zero.
\<close>

record Repository =
  Name :: string
  URL :: string
  SSHURL :: string
  DefaultBranchName :: string
  Archived :: bool
  Language :: string
  Visibility :: string
  Fork :: bool
  Size :: int
  PushedAt :: Time

datatype Visibility = VisibilityNone | VisibilityPublic | VisibilityPrivate | VisibilityInternal

fun Visibility_String :: "Visibility \<Rightarrow> string" where
  "Visibility_String VisibilityPublic = ''public''"
| "Visibility_String VisibilityPrivate = ''private''"
| "Visibility_String VisibilityInternal = ''internal''"
| "Visibility_String VisibilityNone = ''''"

datatype ArchiveCondition = IncludeArchived | OnlyArchived | OmitArchived

datatype Source = AllSources | OnlyForks | OnlyNonForks

text \<open>\<open>SizeCondition\<close>; the source's constant \<open>All\<close> is written \<open>AllSizes\<close> here.\<close>

datatype SizeCondition = AllSizes | NotEmpty | OnlyEmpty

text \<open>
  \<open>type SearchOptions struct\<close>. The field \<open>Visibility\<close> is written \<open>VisibilityFilter\<close>
  (the Repository record already has a field of that name); \<open>FilterIn\<close> is \<open>None\<close> for
  Go's \<open>nil\<close>; \<open>Cache\<close> is the duration in nanoseconds.
\<close>

record SearchOptions =
  Languages :: "string list"
  ArchiveCondition :: ArchiveCondition
  VisibilityFilter :: Visibility
  Source :: Source
  PerPage :: int
  Page :: int
  SizeCondition :: SizeCondition
  FilterIn :: "(Repository \<Rightarrow> bool) option"
  Cache :: int




text \<open>The zero value \<open>SearchOptions{}\<close>: nothing configured.\<close>

definition SearchOptions_zero :: SearchOptions where
  "SearchOptions_zero =
     \<lparr>Languages = [], ArchiveCondition = IncludeArchived, VisibilityFilter = VisibilityNone,
      Source = AllSources, PerPage = 0, Page = 0, SizeCondition = AllSizes,
      FilterIn = None, Cache = 0\<rparr>"

section \<open>Filter chain\<close>

text \<open>
  \<open>strings.EqualFold\<close> restricted to ASCII letters (Unicode simple folding agrees with it
  on ASCII text).
\<close>

definition toLowerASCII :: "char \<Rightarrow> char" where
  "toLowerASCII c =
     (let n = (of_char c :: nat)
      in if 65 \<le> n \<and> n \<le> 90 then char_of (n + 32) else c)"

definition EqualFold :: "string \<Rightarrow> string \<Rightarrow> bool" where
  "EqualFold s t = (map toLowerASCII s = map toLowerASCII t)"

text \<open>
  The closure \<open>MakeFilterIn\<close> returns: it walks the collected filters in order and
  stops at the first one that rejects the repository.
\<close>

fun runFilters :: "(Repository \<Rightarrow> bool) list \<Rightarrow> Repository \<Rightarrow> bool" where
  "runFilters [] r = True"
| "runFilters (f # fs) r = (if \<not> f r then False else runFilters fs r)"

fun languageFilter :: "string list \<Rightarrow> Repository \<Rightarrow> bool" where
  "languageFilter [] r = False"
| "languageFilter (l # ls) r = (if EqualFold l (Language r) then True else languageFilter ls r)"

text \<open>\<open>SearchOptions.MakeFilterIn\<close>: the filters are appended in the source's order.\<close>

definition MakeFilterIn :: "SearchOptions \<Rightarrow> Repository \<Rightarrow> bool" where
  "MakeFilterIn so =
     runFilters
       ((case FilterIn so of None \<Rightarrow> [] | Some f \<Rightarrow> [f]) @
        (if length (Languages so) > 0 then [languageFilter (Languages so)] else []) @
        (case ArchiveCondition so of
           OnlyArchived \<Rightarrow> [\<lambda>r. Archived r]
         | OmitArchived \<Rightarrow> [\<lambda>r. \<not> Archived r]
         | IncludeArchived \<Rightarrow> []) @
        (case Source so of
           OnlyForks \<Rightarrow> [\<lambda>r. Fork r]
         | OnlyNonForks \<Rightarrow> [\<lambda>r. \<not> Fork r]
         | AllSources \<Rightarrow> []) @
        (if VisibilityFilter so \<noteq> VisibilityNone
         then [\<lambda>r. Visibility r = Visibility_String (VisibilityFilter so)] else []) @
        (case SizeCondition so of
           NotEmpty \<Rightarrow> [\<lambda>r. Size r > 0]
         | OnlyEmpty \<Rightarrow> [\<lambda>r. Size r = 0]
         | AllSizes \<Rightarrow> []))"

subsection \<open>The command's search filter (filter.go)\<close>

definition defaultSearchFilterIn :: "Repository \<Rightarrow> bool" where
  "defaultSearchFilterIn r = (\<not> Archived r \<and> \<not> Fork r \<and> Size r > 0)"

text \<open>
  Errors. \<open>errNoDefaultBranch\<close> is the package's sentinel; \<open>New\<close> is \<open>errors.New\<close> or a
  \<open>fmt.Errorf\<close> without \<open>%w\<close> (format and string arguments kept apart, not rendered);
  \<open>Wrapf\<close> is a \<open>fmt.Errorf\<close> whose last verb is \<open>%w\<close>; \<open>Foreign\<close> is an error value made
  by a collaborator (the command runner, the operating system, the expression evaluator,
  the context, the caller's Processor).
\<close>

datatype error =
    errNoDefaultBranch
  | New string "string list"
  | Wrapf string "string list" error
  | Foreign string

text \<open>\<open>errors.Is\<close>: the target is compared with every error of the \<open>%w\<close> chain.\<close>

fun errors_Is :: "error \<Rightarrow> error \<Rightarrow> bool" where
  "errors_Is (Wrapf f as e) target = (Wrapf f as e = target \<or> errors_Is e target)"
| "errors_Is e target = (e = target)"

text \<open>
  Values a compiled expression yields (\<open>out.Value()\<close>), and the activation it is run on.
  The expression language itself is a collaborator: a compiled program is any function
  from the activation to a value or an evaluation error.
\<close>

datatype cel_value =
    BoolV bool
  | StringV string
  | IntV int
  | TimestampV Time
  | MapV "(string \<times> cel_value) list"

type_synonym cel_program = "(string \<times> cel_value) list \<Rightarrow> error + cel_value"

text \<open>A record handed to the logger: level, message, attributes.\<close>

datatype log_level = LevelDebug | LevelWarn | LevelError

datatype log_attr = StringAttr string string | ErrorAttr string error

datatype log_record = LogRecord log_level string "log_attr list"

definition repoMap :: "Repository \<Rightarrow> (string \<times> cel_value) list" where
  "repoMap r =
     [(''name'', StringV (Name r)),
      (''archived'', BoolV (Archived r)),
      (''language'', StringV (Language r)),
      (''visibility'', StringV (Visibility r)),
      (''fork'', BoolV (Fork r)),
      (''isEmpty'', BoolV (Size r = 0)),
      (''pushedAt'', TimestampV (PushedAt r))]"

text \<open>
  The closure \<open>parseSearchFilterIn\<close> returns for a non-empty condition: its boolean
  answer and the records it hands to the logger.
\<close>

definition celFilterIn :: "cel_program \<Rightarrow> Repository \<Rightarrow> bool \<times> log_record list" where
  "celFilterIn prg r =
     (case prg [(''repo'', MapV (repoMap r))] of
        Inl err \<Rightarrow>
          (False, [LogRecord LevelError ''Failed to evaluate CEL expression'' [ErrorAttr ''error'' err]])
      | Inr out \<Rightarrow> (case out of BoolV result \<Rightarrow> (result, []) | _ \<Rightarrow> (False, [])))"

text \<open>
  \<open>parseSearchFilterIn\<close>. \<open>compile\<close> stands for \<open>cel.NewEnv\<close>, \<open>env.Compile\<close> and
  \<open>env.Program\<close> in sequence, each of whose errors is returned as it is.
\<close>

definition parseSearchFilterIn ::
  "(string \<Rightarrow> error + cel_program) \<Rightarrow> string \<Rightarrow> error + (Repository \<Rightarrow> bool \<times> log_record list)"
where
  "parseSearchFilterIn compile cond =
     (if cond = [] then Inr (\<lambda>r. (defaultSearchFilterIn r, []))
      else (case compile cond of
              Inl err \<Rightarrow> Inl err
            | Inr prg \<Rightarrow> Inr (celFilterIn prg)))"

text \<open>
  The options the command passes to \<open>RunForOrganization\<close> (main.go): only the custom
  predicate and the pagination are set.
\<close>

definition mainSearchOptions ::
  "(Repository \<Rightarrow> bool \<times> log_record list) \<Rightarrow> int \<Rightarrow> int \<Rightarrow> SearchOptions" where
  "mainSearchOptions searchFilterIn perPage p =
     SearchOptions_zero\<lparr>FilterIn := Some (\<lambda>r. fst (searchFilterIn r)), PerPage := perPage, Page := p\<rparr>"

section \<open>Collaborators\<close>

text \<open>
  \<open>type Options struct\<close>: the fields the clone manager and the dispatcher read. The log
  handler, the debug flag and the context enricher only choose where log records go and
  what the context carries.
\<close>

record Options =
  UseHTTPS :: bool
  CloneCacheKey :: "(Repository \<Rightarrow> string) option"
  CloningSubset :: "string list"
  NumberOfWorkers :: int

definition CloneCacheKeyFromString :: "string \<Rightarrow> (Repository \<Rightarrow> string) option" where
  "CloneCacheKeyFromString s = Some (\<lambda>r. s)"


definition GithubAPIVersion :: string where
  "GithubAPIVersion = ''2022-11-28''"

text \<open>\<open>exec.Result\<close>, the outcome of one command.\<close>

record exec_Result =
  Stdout :: string
  Stderr :: string
  ExitCode :: int
  Cancelled :: bool

text \<open>
  What a run does to the outside, in the order it does it: file-system calls, commands
  (working directory, command, arguments), the clock, the random suffix, the call of the
  caller's Processor (repository, isEmpty, root of the command-running handle) and the
  records handed to the logger.
\<close>

datatype effect =
    OsStat string
  | OsMkdirAll string
  | OsRemoveAll string
  | OsCreate string
  | Fprintln string string
  | FileClose string
  | TaskExecute string string "string list"
  | TimeNow
  | RandSequence nat
  | CallProcessor string bool string
  | Log log_record

datatype stat_result = StatIsDir | StatNotDir | StatNotExist | StatError error

text \<open>
  The outside world: what each collaborator answers, given everything the run has done
  so far. \<open>reposDir\<close> is the package variable set by \<open>init\<close>. The pure library functions
  (MD5, path joining, JSON decoding, line scanning, duration printing) are fields too,
  so that nothing is assumed about them.
\<close>

record world =
  reposDir :: string
  os_Stat :: "effect list \<Rightarrow> string \<Rightarrow> stat_result"
  os_MkdirAll :: "effect list \<Rightarrow> string \<Rightarrow> error option"
  os_RemoveAll :: "effect list \<Rightarrow> string \<Rightarrow> error option"
  os_Create :: "effect list \<Rightarrow> string \<Rightarrow> error option"
  fmt_Fprintln :: "effect list \<Rightarrow> string \<Rightarrow> string \<Rightarrow> error option"
  task_Execute :: "effect list \<Rightarrow> string \<Rightarrow> string \<Rightarrow> string list \<Rightarrow> error + exec_Result"
  time_Now :: "effect list \<Rightarrow> Time"
  randSequence :: "effect list \<Rightarrow> nat \<Rightarrow> string"
  processor :: "effect list \<Rightarrow> string \<Rightarrow> bool \<Rightarrow> string \<Rightarrow> error option"
  md5_Sum :: "string \<Rightarrow> string"
  path_Join :: "string \<Rightarrow> string \<Rightarrow> string"
  json_Repository :: "string \<Rightarrow> error + Repository"
  json_Page :: "string \<Rightarrow> error + Repository list"
  json_ghErrResponse :: "string \<Rightarrow> error option"
  bufio_ScanLines :: "string \<Rightarrow> string list \<times> error option"
  Duration_String :: "int \<Rightarrow> string"

section \<open>Command runner (package exec)\<close>

text \<open>\<open>strings.Join\<close>.\<close>

fun Join :: "string list \<Rightarrow> string \<Rightarrow> string" where
  "Join [] sep = []"
| "Join [x] sep = x"
| "Join (x # y # ys) sep = x @ sep @ Join (y # ys) sep"

definition cmdString :: "string \<Rightarrow> string list \<Rightarrow> string" where
  "cmdString command args = Join (command # args) '' ''"

text \<open>
  \<open>execer.RunX\<close> through \<open>Run\<close> and \<open>RunWithStdin\<close>: a launch error is wrapped with the
  command line; a non-zero exit code becomes an \<open>execError\<close>, written here as a
  \<open>New\<close> error carrying the command line and the standard error text.
\<close>

definition RunX ::
  "world \<Rightarrow> string \<Rightarrow> string \<Rightarrow> string list \<Rightarrow> effect list \<Rightarrow> (string \<times> error option) \<times> effect list"
where
  "RunX w dir command args tr =
     (let tr' = tr @ [TaskExecute dir command args] in
      case task_Execute w tr dir command args of
        Inl err \<Rightarrow> (([], Some (Wrapf ''%s: %w'' [cmdString command args] err)), tr')
      | Inr res \<Rightarrow>
          if ExitCode res \<noteq> 0
          then ((Stdout res, Some (New ''%s: exit code %d'' [cmdString command args, Stderr res])), tr')
          else ((Stdout res, None), tr'))"

text \<open>\<open>github.ErrOrGHAPIErr\<close>: the API's own error when the payload decodes as one.\<close>

definition ErrOrGHAPIErr :: "world \<Rightarrow> string \<Rightarrow> error \<Rightarrow> error" where
  "ErrOrGHAPIErr w apiResponsePayload err =
     (if length apiResponsePayload > 0
      then (case json_ghErrResponse w apiResponsePayload of Some errRes \<Rightarrow> errRes | None \<Rightarrow> err)
      else err)"

section \<open>Clone and cache manager\<close>

subsection \<open>Directory names\<close>

definition hexDigit :: "nat \<Rightarrow> char" where
  "hexDigit n = (if n < 10 then char_of (48 + n) else char_of (87 + n))"

text \<open>\<open>fmt.Sprintf("%x", bytes)\<close>: two lower-case hexadecimal digits per byte.\<close>

fun hexBytes :: "string \<Rightarrow> string" where
  "hexBytes [] = []"
| "hexBytes (b # bs) =
     hexDigit ((of_char b :: nat) div 16) # hexDigit ((of_char b :: nat) mod 16) # hexBytes bs"

definition hashCloningSubset :: "world \<Rightarrow> string list \<Rightarrow> string" where
  "hashCloningSubset w cs = take 16 (hexBytes (md5_Sum w (Join cs ''|'')))"

text \<open>
  \<open>time.Time.Format\<close> at the one layout the code uses, \<open>02T15_04_05.999999999\<close>:
  two-digit day of the month, hour, minute and second, then the nanoseconds as a
  fraction whose trailing zeros (and the dot, when nothing is left) are dropped.
\<close>

fun padDigits :: "nat \<Rightarrow> nat \<Rightarrow> string" where
  "padDigits 0 n = []"
| "padDigits (Suc k) n = padDigits k (n div 10) @ [char_of (48 + n mod 10)]"

definition trimZeros :: "string \<Rightarrow> string" where
  "trimZeros ds = rev (dropWhile (\<lambda>c. c = CHR ''0'') (rev ds))"

definition formatNano :: "nat \<Rightarrow> string" where
  "formatNano n = (if n = 0 then [] else CHR ''.'' # trimZeros (padDigits 9 n))"

definition Format_cacheKey :: "Time \<Rightarrow> string" where
  "Format_cacheKey t =
     padDigits 2 (Day t) @ ''T'' @ padDigits 2 (Hour t) @ ''_'' @ padDigits 2 (Minute t) @ ''_'' @
     padDigits 2 (Second t) @ formatNano (Nanosecond t)"

text \<open>The clock readings \<open>time.Now()\<close> can give: the ranges of the components.\<close>

definition validClock :: "Time \<Rightarrow> bool" where
  "validClock t =
     (1 \<le> Day t \<and> Day t \<le> 31 \<and> Hour t < 24 \<and> Minute t < 60 \<and> Second t < 60 \<and>
      Nanosecond t < 1000000000)"

text \<open>
  The name of the clone directory under \<open>reposDir\<close>, as \<open>cloneRepositoryOrGetFromCache\<close>
  builds it from the repository, the cache key and the sparse-checkout subset.
\<close>

definition cloneDirName :: "world \<Rightarrow> Repository \<Rightarrow> string \<Rightarrow> string list \<Rightarrow> string" where
  "cloneDirName w repo cacheKey cs =
     Name repo @ ''-'' @ cacheKey @
     (if length cs > 0 then ''-'' @ hashCloningSubset w cs else [])"

subsection \<open>Clone sequence\<close>

fun printLines :: "world \<Rightarrow> string \<Rightarrow> string list \<Rightarrow> effect list \<Rightarrow> error option \<times> effect list" where
  "printLines w p [] tr = (None, tr)"
| "printLines w p (l # ls) tr =
     (case fmt_Fprintln w tr p l of
        Some err \<Rightarrow> (Some (Wrapf ''printing lines to file: %w'' [] err), tr @ [Fprintln p l])
      | None \<Rightarrow> printLines w p ls (tr @ [Fprintln p l]))"

definition fillLines :: "world \<Rightarrow> string \<Rightarrow> string list \<Rightarrow> effect list \<Rightarrow> error option \<times> effect list" where
  "fillLines w p lines tr =
     (case os_Create w tr p of
        Some err \<Rightarrow> (Some (Wrapf ''opening file: %w'' [] err), tr @ [OsCreate p])
      | None \<Rightarrow>
          (case printLines w p lines (tr @ [OsCreate p]) of
             (res, tr') \<Rightarrow> (res, tr' @ [FileClose p])))"

definition sparseCheckout ::
  "world \<Rightarrow> string \<Rightarrow> Options \<Rightarrow> effect list \<Rightarrow> error option \<times> effect list" where
  "sparseCheckout w repoDir opts tr =
     (case RunX w repoDir ''git'' [''config'', ''core.sparseCheckout'', ''true''] tr of
        ((out, Some err), tr1) \<Rightarrow> (Some (Wrapf ''setting sparse checkout subset: %w'' [] err), tr1)
      | ((out, None), tr1) \<Rightarrow>
          (case fillLines w (path_Join w repoDir ''.git/info/sparse-checkout'') (CloningSubset opts) tr1 of
             (Some err, tr2) \<Rightarrow> (Some (Wrapf ''setting cloning subset: %w'' [] err), tr2)
           | (None, tr2) \<Rightarrow> (None, tr2)))"

definition fetchAndCheckout ::
  "world \<Rightarrow> Repository \<Rightarrow> string \<Rightarrow> effect list \<Rightarrow> error option \<times> effect list" where
  "fetchAndCheckout w repo repoDir tr =
     (case RunX w repoDir ''git'' [''fetch'', ''origin'', DefaultBranchName repo] tr of
        ((out, Some err), tr1) \<Rightarrow> (Some (Wrapf ''fetching HEAD: %w'' [] err), tr1)
      | ((out, None), tr1) \<Rightarrow>
          (case RunX w repoDir ''git'' [''checkout'', DefaultBranchName repo] tr1 of
             ((out', Some err), tr2) \<Rightarrow> (Some (Wrapf ''checking out HEAD: %w'' [] err), tr2)
           | ((out', None), tr2) \<Rightarrow> (None, tr2)))"

text \<open>
  The first part of \<open>cloneRepository\<close>: init, add the remote, and set up the sparse
  checkout when a subset is given.
\<close>

definition cloneSetup ::
  "world \<Rightarrow> Repository \<Rightarrow> string \<Rightarrow> Options \<Rightarrow> effect list \<Rightarrow> error option \<times> effect list" where
  "cloneSetup w repo repoDir opts tr =
     (case RunX w repoDir ''git'' [''init''] tr of
        ((out, Some err), tr1) \<Rightarrow> (Some (Wrapf ''cloning repository: %w'' [] err), tr1)
      | ((out, None), tr1) \<Rightarrow>
          (let repoURL = (if UseHTTPS opts then URL repo else SSHURL repo) in
           case RunX w repoDir ''git'' [''remote'', ''add'', ''origin'', repoURL] tr1 of
             ((out', Some err), tr2) \<Rightarrow> (Some (Wrapf ''adding origin: %w'' [] err), tr2)
           | ((out', None), tr2) \<Rightarrow>
               if length (CloningSubset opts) > 0 then sparseCheckout w repoDir opts tr2
               else (None, tr2)))"

text \<open>
  \<open>cloneRepository\<close>: the setup, then the check of the default branch, then fetch and
  checkout.
\<close>

definition cloneRepository ::
  "world \<Rightarrow> Repository \<Rightarrow> string \<Rightarrow> Options \<Rightarrow> effect list \<Rightarrow> error option \<times> effect list" where
  "cloneRepository w repo repoDir opts tr =
     (case cloneSetup w repo repoDir opts tr of
        (Some err, tr3) \<Rightarrow> (Some err, tr3)
      | (None, tr3) \<Rightarrow>
          if DefaultBranchName repo = [] then (Some errNoDefaultBranch, tr3)
          else fetchAndCheckout w repo repoDir tr3)"

subsection \<open>Acquiring a working directory\<close>

text \<open>
  The \<open>os.Stat\<close> block of \<open>cloneRepositoryOrGetFromCache\<close>: reuse an existing directory,
  or create it and clone into it, removing it again when the clone fails.
\<close>

definition statOrClone ::
  "world \<Rightarrow> Repository \<Rightarrow> string \<Rightarrow> Options \<Rightarrow> effect list \<Rightarrow> error option \<times> effect list" where
  "statOrClone w repo cloneDir opts tr =
     (let tr1 = tr @ [OsStat cloneDir] in
      case os_Stat w tr cloneDir of
        StatIsDir \<Rightarrow> (None, tr1)
      | StatNotDir \<Rightarrow> (Some (New ''unexpected file in cloning directory: %s'' [cloneDir]), tr1)
      | StatNotExist \<Rightarrow>
          (case os_MkdirAll w tr1 cloneDir of
             Some err \<Rightarrow> (Some (Wrapf ''creating cloning directory: %w'' [] err), tr1 @ [OsMkdirAll cloneDir])
           | None \<Rightarrow>
               (case cloneRepository w repo cloneDir opts (tr1 @ [OsMkdirAll cloneDir]) of
                  (Some err, tr2) \<Rightarrow>
                    (case os_RemoveAll w tr2 cloneDir of
                       Some rErr \<Rightarrow>
                         (Some err,
                          tr2 @ [OsRemoveAll cloneDir,
                                 Log (LogRecord LevelWarn ''Failed to remove the clone directory''
                                        [ErrorAttr ''error'' rErr])])
                     | None \<Rightarrow> (Some err, tr2 @ [OsRemoveAll cloneDir]))
                | (None, tr2) \<Rightarrow> (None, tr2)))
      | StatError err \<Rightarrow> (Some (Wrapf ''checking clone directory: %w'' [] err), tr1))"

text \<open>The private copy made when the caller chose the cache key.\<close>

definition copyCloneDir :: "world \<Rightarrow> string \<Rightarrow> effect list \<Rightarrow> (error + string) \<times> effect list" where
  "copyCloneDir w cloneDir tr =
     (let repoDir = cloneDir @ ''_'' @ randSequence w tr 9;
          tr1 = tr @ [RandSequence 9] in
      case RunX w (reposDir w) ''cp'' [''-r'', cloneDir, repoDir] tr1 of
        ((out, Some err), tr2) \<Rightarrow>
          (case os_RemoveAll w tr2 repoDir of
             Some rErr \<Rightarrow>
               (Inl (Wrapf ''copying repository %w'' [] err),
                tr2 @ [OsRemoveAll repoDir,
                       Log (LogRecord LevelWarn ''Failed to remove the repo directory''
                              [ErrorAttr ''error'' rErr])])
           | None \<Rightarrow> (Inl (Wrapf ''copying repository %w'' [] err), tr2 @ [OsRemoveAll repoDir]))
      | ((out, None), tr2) \<Rightarrow> (Inr repoDir, tr2))"

text \<open>
  The cache key of one call: the caller's key function applied to the repository, or,
  when there is none or it answers the empty string, the formatted clock reading.
\<close>

definition callerCacheKey :: "Repository \<Rightarrow> Options \<Rightarrow> string" where
  "callerCacheKey repo opts = (case CloneCacheKey opts of None \<Rightarrow> [] | Some f \<Rightarrow> f repo)"

definition cloneRepositoryOrGetFromCache ::
  "world \<Rightarrow> Repository \<Rightarrow> Options \<Rightarrow> effect list \<Rightarrow> (error + string) \<times> effect list" where
  "cloneRepositoryOrGetFromCache w repo opts tr =
     (let shouldReturnDirectly = (callerCacheKey repo opts = []);
          cacheKey = (if callerCacheKey repo opts = [] then Format_cacheKey (time_Now w tr)
                      else callerCacheKey repo opts);
          tr0 = (if callerCacheKey repo opts = [] then tr @ [TimeNow] else tr);
          cloneDir = path_Join w (reposDir w) (cloneDirName w repo cacheKey (CloningSubset opts))
      in case statOrClone w repo cloneDir opts tr0 of
           (Some err, tr1) \<Rightarrow> (Inl err, tr1)
         | (None, tr1) \<Rightarrow>
             if shouldReturnDirectly then (Inr cloneDir, tr1) else copyCloneDir w cloneDir tr1)"

subsection \<open>Processing one repository\<close>

text \<open>
  \<open>processRepository\<close>. The deferred \<open>os.RemoveAll(repoDir)\<close> runs after the Processor
  returns, whatever it returns.
\<close>

definition processRepository ::
  "world \<Rightarrow> Repository \<Rightarrow> Options \<Rightarrow> effect list \<Rightarrow> error option \<times> effect list" where
  "processRepository w repo opts tr =
     (if Size repo = 0
      then
        (let tr1 = tr @ [Log (LogRecord LevelDebug ''Empty repository'' [StringAttr ''repository'' (Name repo)])]
         in case processor w tr1 (Name repo) True [] of
              Some err \<Rightarrow>
                (Some (Wrapf ''processing empty repository: %w'' [] err),
                 tr1 @ [CallProcessor (Name repo) True []])
            | None \<Rightarrow> (None, tr1 @ [CallProcessor (Name repo) True []]))
      else
        (case cloneRepositoryOrGetFromCache w repo opts tr of
           (Inl err, tr1) \<Rightarrow> (Some err, tr1)
         | (Inr repoDir, tr1) \<Rightarrow>
             (processor w tr1 (Name repo) False repoDir,
              tr1 @ [CallProcessor (Name repo) False repoDir, OsRemoveAll repoDir])))"

section \<open>Entry points\<close>

subsection \<open>RunForRepository\<close>

text \<open>\<open>strings.Count(s, "/")\<close>: the number of occurrences of the one-byte substring.\<close>

definition Count_slash :: "string \<Rightarrow> nat" where
  "Count_slash s = count_list s CHR ''/''"

definition ghApiHeaders :: "string list" where
  "ghApiHeaders =
     [''api'',
      ''-H'', ''Accept: application/vnd.github+json'',
      ''-H'', ''X-GitHub-Api-Version: '' @ GithubAPIVersion,
      ''-X'', ''GET'']"

definition repoFieldsJq :: string where
  "repoFieldsJq =
     ''{full_name,clone_url,ssh_url,default_branch,archived,language,visibility,fork,size,pushed_at}''"

definition RunForRepository ::
  "world \<Rightarrow> string \<Rightarrow> Options \<Rightarrow> effect list \<Rightarrow> error option \<times> effect list" where
  "RunForRepository w repoName opts tr =
     (if Count_slash repoName > 1
      then (Some (New ''incorrect repository name %q'' [repoName]), tr)
      else
        (case RunX w ''.'' ''gh'' (ghApiHeaders @ [''--jq'', repoFieldsJq, ''/repos/'' @ repoName]) tr of
           ((res, Some err), tr1) \<Rightarrow>
             (Some (Wrapf ''fetching repository %q: %w'' [repoName] (ErrOrGHAPIErr w res err)), tr1)
         | ((res, None), tr1) \<Rightarrow>
             (case json_Repository w res of
                Inl err \<Rightarrow> (Some (Wrapf ''unmarshaling repository: %w'' [] err), tr1)
              | Inr repo \<Rightarrow>
                  (case processRepository w repo opts tr1 of
                     (Some err, tr2) \<Rightarrow> (Some (Wrapf ''processing %q: %w'' [Name repo] err), tr2)
                   | (None, tr2) \<Rightarrow> (None, tr2)))))"

subsection \<open>RunForOrganization: the listing request\<close>




text \<open>\<open>type Result struct\<close> of the iterator, and its zero value \<open>Result{}\<close>.\<close>

record Result =
  Found :: int
  Inspected :: int
  Processed :: int

definition Result_zero :: Result where
  "Result_zero = \<lparr>Found = 0, Inspected = 0, Processed = 0\<rparr>"








section \<open>Dispatcher\<close>

text \<open>
  \<open>runForReposConcurrently\<close> starts one producer goroutine and \<open>nOfWorkers\<close> worker
  goroutines and then waits in a select. The model is an interleaving of their atomic
  steps. Each goroutine has a program counter naming the statement it is at; the
  channels are a buffer and a closed flag (\<open>doneC\<close> is never sent on: only its flag).
\<close>

datatype producer_pc =
    PLoop "Repository list"
  | PInspected Repository "Repository list"
  | PSelect Repository "Repository list"
  | PSend Repository "Repository list"
  | PDeferred
  | PExit

datatype worker_pc = WRange | WSelect Repository | WSend error | WExit

datatype main_pc =
    MSelect
  | MErrReceived error
  | MErrWait error
  | MCtxWait
  | MCtxCheck
  | MCtxClose
  | MDoneWait
  | MReturned Result "error option"

record dstate =
  repoC :: "Repository list"
  repoC_closed :: bool
  errC :: "error list"
  errC_closed :: bool
  doneC_closed :: bool
  ctx_Err :: "error option"
  mFound :: int
  mInspected :: int
  mProcessed :: int
  producer :: producer_pc
  workers :: "worker_pc list"
  mainG :: main_pc
  panicked :: bool
  logged :: "log_record list"

text \<open>The loop \<open>mFound += len(repoPage)\<close>.\<close>

fun countFound :: "Repository list list \<Rightarrow> int \<Rightarrow> int" where
  "countFound [] n = n"
| "countFound (repoPage # repoPages) n = countFound repoPages (n + int (length repoPage))"

text \<open>
  The state when the goroutines have been started: \<open>mFound\<close> is already summed, the
  producer is about to walk the records in page order, every worker waits on \<open>repoC\<close>.
\<close>

definition initial :: "Repository list list \<Rightarrow> nat \<Rightarrow> dstate" where
  "initial repoPages nOfWorkers =
     \<lparr>repoC = [], repoC_closed = False, errC = [], errC_closed = False, doneC_closed = False,
      ctx_Err = None, mFound = countFound repoPages 0, mInspected = 0, mProcessed = 0,
      producer = PLoop (concat repoPages), workers = replicate nOfWorkers WRange,
      mainG = MSelect, panicked = False, logged = []\<rparr>"

subsection \<open>The producer goroutine\<close>

text \<open>
  \<^item> \<open>PLoop rs\<close>: at the head of the loops, \<open>rs\<close> the records not yet looked at (pages in
    order, flattened). With a record left it locks and increments \<open>mInspected\<close>; with none
    left it runs \<open>close(doneC)\<close>, which panics on a channel that is closed already.
  \<^item> \<open>PInspected r rs\<close>: calling \<open>filterIn\<close>; a rejected record is skipped, an accepted one
    increments \<open>mProcessed\<close>.
  \<^item> \<open>PSelect r rs\<close>: at the select; it returns when the context is done or \<open>doneC\<close> is
    closed and takes the default branch otherwise.
  \<^item> \<open>PSend r rs\<close>: \<open>repoC <- repo\<close>, which waits while the buffer is full.
  \<^item> \<open>PDeferred\<close>: returning, the deferred \<open>close(repoC)\<close> still to run.
\<close>

definition stepProducer :: "(Repository \<Rightarrow> bool) \<Rightarrow> nat \<Rightarrow> dstate \<Rightarrow> dstate option" where
  "stepProducer filterIn nOfWorkers s =
     (case producer s of
        PLoop [] \<Rightarrow>
          if doneC_closed s then Some (s\<lparr>panicked := True\<rparr>)
          else Some (s\<lparr>doneC_closed := True, producer := PDeferred\<rparr>)
      | PLoop (r # rs) \<Rightarrow> Some (s\<lparr>mInspected := mInspected s + 1, producer := PInspected r rs\<rparr>)
      | PInspected r rs \<Rightarrow>
          if \<not> filterIn r then Some (s\<lparr>producer := PLoop rs\<rparr>)
          else Some (s\<lparr>mProcessed := mProcessed s + 1, producer := PSelect r rs\<rparr>)
      | PSelect r rs \<Rightarrow>
          if ctx_Err s \<noteq> None \<or> doneC_closed s then Some (s\<lparr>producer := PDeferred\<rparr>)
          else Some (s\<lparr>producer := PSend r rs\<rparr>)
      | PSend r rs \<Rightarrow>
          if length (repoC s) < nOfWorkers then Some (s\<lparr>repoC := repoC s @ [r], producer := PLoop rs\<rparr>)
          else None
      | PDeferred \<Rightarrow> Some (s\<lparr>repoC_closed := True, producer := PExit\<rparr>)
      | PExit \<Rightarrow> None)"

subsection \<open>The worker goroutines\<close>

text \<open>
  \<^item> \<open>WRange\<close>: at \<open>for repo := range repoC\<close>; it takes the oldest record, leaves (and
    \<open>wg.Done()\<close>) when the channel is closed and empty, waits otherwise.
  \<^item> \<open>WSelect r\<close>: at the select; a done context skips the record; otherwise
    \<open>processRepository\<close> runs, whose result for this record is \<open>proc r\<close>.
    A result that is \<open>errNoDefaultBranch\<close> is logged and the loop goes on.
  \<^item> \<open>WSend e\<close>: \<open>errC <- e\<close>, then return.
\<close>

definition noDefaultBranchWarning :: "Repository \<Rightarrow> log_record" where
  "noDefaultBranchWarning repo =
     LogRecord LevelWarn ''Repository with no default branch'' [StringAttr ''repository'' (Name repo)]"

definition stepWorker ::
  "(Repository \<Rightarrow> error option) \<Rightarrow> nat \<Rightarrow> nat \<Rightarrow> dstate \<Rightarrow> dstate option" where
  "stepWorker proc nOfWorkers i s =
     (if i < length (workers s) then
        (case workers s ! i of
           WRange \<Rightarrow>
             (case repoC s of
                repo # q \<Rightarrow> Some (s\<lparr>repoC := q, workers := (workers s)[i := WSelect repo]\<rparr>)
              | [] \<Rightarrow>
                  if repoC_closed s then Some (s\<lparr>workers := (workers s)[i := WExit]\<rparr>) else None)
         | WSelect repo \<Rightarrow>
             if ctx_Err s \<noteq> None then Some (s\<lparr>workers := (workers s)[i := WRange]\<rparr>)
             else
               (case proc repo of
                  None \<Rightarrow> Some (s\<lparr>workers := (workers s)[i := WRange]\<rparr>)
                | Some err \<Rightarrow>
                    if errors_Is err errNoDefaultBranch
                    then Some (s\<lparr>logged := logged s @ [noDefaultBranchWarning repo],
                                 workers := (workers s)[i := WRange]\<rparr>)
                    else Some (s\<lparr>workers :=
                                   (workers s)[i := WSend (Wrapf ''processing %q: %w'' [Name repo] err)]\<rparr>))
         | WSend e \<Rightarrow>
             if errC_closed s then Some (s\<lparr>panicked := True\<rparr>)
             else if length (errC s) < nOfWorkers
             then Some (s\<lparr>errC := errC s @ [e], workers := (workers s)[i := WExit]\<rparr>)
             else None
         | WExit \<Rightarrow> None)
      else None)"

subsection \<open>The calling goroutine\<close>

text \<open>\<open>wg.Wait()\<close> returns once every worker has left.\<close>

definition allExited :: "worker_pc list \<Rightarrow> bool" where
  "allExited ws = list_all (\<lambda>w. w = WExit) ws"

text \<open>
  The select of the \<open>for\<close> loop takes one of its ready cases: an error from \<open>errC\<close>, the
  done context, the closed \<open>doneC\<close>. Which one, when several are ready, is the
  scheduler's choice.
\<close>

datatype select_case = CaseErr | CaseCtx | CaseDone

definition stepMainSelect :: "select_case \<Rightarrow> dstate \<Rightarrow> dstate option" where
  "stepMainSelect c s =
     (if mainG s = MSelect then
        (case c of
           CaseErr \<Rightarrow>
             (case errC s of
                err # q \<Rightarrow> Some (s\<lparr>errC := q, mainG := MErrReceived err\<rparr>)
              | [] \<Rightarrow> if errC_closed s then Some s else None)
         | CaseCtx \<Rightarrow> if ctx_Err s \<noteq> None then Some (s\<lparr>mainG := MCtxWait\<rparr>) else None
         | CaseDone \<Rightarrow> if doneC_closed s then Some (s\<lparr>mainG := MDoneWait\<rparr>) else None)
      else None)"

text \<open>
  \<^item> \<open>MErrReceived err\<close>: at \<open>close(doneC)\<close> of the error case.
  \<^item> \<open>MErrWait err\<close>: in \<open>wg.Wait()\<close>, then \<open>close(errC)\<close> and \<open>return Result{}, err\<close>.
  \<^item> \<open>MCtxWait\<close>: in \<open>wg.Wait()\<close> of the context case.
  \<^item> \<open>MCtxCheck\<close>: at the inner select, which closes \<open>doneC\<close> only if it is still open
    (\<open>MCtxClose\<close> is its default branch, at \<open>close(doneC)\<close>).
  \<^item> \<open>MDoneWait\<close>: in \<open>wg.Wait()\<close> of the \<open>doneC\<close> case, then the inner select on \<open>errC\<close>.
\<close>

definition stepMain :: "dstate \<Rightarrow> dstate option" where
  "stepMain s =
     (case mainG s of
        MSelect \<Rightarrow> None
      | MErrReceived err \<Rightarrow>
          if doneC_closed s then Some (s\<lparr>panicked := True\<rparr>)
          else Some (s\<lparr>doneC_closed := True, mainG := MErrWait err\<rparr>)
      | MErrWait err \<Rightarrow>
          if allExited (workers s)
          then Some (s\<lparr>errC_closed := True, mainG := MReturned Result_zero (Some err)\<rparr>)
          else None
      | MCtxWait \<Rightarrow> if allExited (workers s) then Some (s\<lparr>mainG := MCtxCheck\<rparr>) else None
      | MCtxCheck \<Rightarrow>
          if doneC_closed s
          then Some (s\<lparr>errC_closed := True, mainG := MReturned Result_zero (ctx_Err s)\<rparr>)
          else Some (s\<lparr>mainG := MCtxClose\<rparr>)
      | MCtxClose \<Rightarrow>
          if doneC_closed s then Some (s\<lparr>panicked := True\<rparr>)
          else Some (s\<lparr>doneC_closed := True, errC_closed := True,
                       mainG := MReturned Result_zero (ctx_Err s)\<rparr>)
      | MDoneWait \<Rightarrow>
          if allExited (workers s) then
            (case errC s of
               err # q \<Rightarrow>
                 Some (s\<lparr>errC := q, errC_closed := True, mainG := MReturned Result_zero (Some err)\<rparr>)
             | [] \<Rightarrow>
                 Some (s\<lparr>errC_closed := True,
                         mainG := MReturned \<lparr>Found = mFound s, Inspected = mInspected s,
                                             Processed = mProcessed s\<rparr> None\<rparr>))
          else None
      | MReturned res err \<Rightarrow> None)"

subsection \<open>Runs\<close>

text \<open>
  Who moves next: the producer, a worker, the caller (at its select, with the case it
  takes, or elsewhere), or the environment cancelling the context with the error
  \<open>ctx.Err()\<close> will report. A goroutine that cannot move (it waits, or it has finished)
  leaves the state as it is. After a panic nothing moves.
\<close>

datatype actor = Producer | Worker nat | Main | MainSelect select_case | Cancel error

definition stepCancel :: "error \<Rightarrow> dstate \<Rightarrow> dstate option" where
  "stepCancel e s = (if ctx_Err s = None then Some (s\<lparr>ctx_Err := Some e\<rparr>) else None)"

definition step ::
  "(Repository \<Rightarrow> bool) \<Rightarrow> (Repository \<Rightarrow> error option) \<Rightarrow> nat \<Rightarrow> actor \<Rightarrow> dstate \<Rightarrow> dstate option"
where
  "step filterIn proc nOfWorkers a s =
     (if panicked s then None
      else (case a of
              Producer \<Rightarrow> stepProducer filterIn nOfWorkers s
            | Worker i \<Rightarrow> stepWorker proc nOfWorkers i s
            | Main \<Rightarrow> stepMain s
            | MainSelect c \<Rightarrow> stepMainSelect c s
            | Cancel e \<Rightarrow> stepCancel e s))"

fun run ::
  "(Repository \<Rightarrow> bool) \<Rightarrow> (Repository \<Rightarrow> error option) \<Rightarrow> nat \<Rightarrow> actor list \<Rightarrow> dstate \<Rightarrow> dstate"
where
  "run filterIn proc nOfWorkers [] s = s"
| "run filterIn proc nOfWorkers (a # sched) s =
     run filterIn proc nOfWorkers sched
       (case step filterIn proc nOfWorkers a s of None \<Rightarrow> s | Some s' \<Rightarrow> s')"

text \<open>
  \<open>runForReposConcurrently\<close> under a schedule: the state the schedule leads to from the
  start. The call has returned there when the caller is at \<open>MReturned\<close>.
\<close>

definition runForReposConcurrently ::
  "Repository list list \<Rightarrow> nat \<Rightarrow> (Repository \<Rightarrow> bool) \<Rightarrow> (Repository \<Rightarrow> error option) \<Rightarrow>
   actor list \<Rightarrow> dstate"
where
  "runForReposConcurrently repoPages nOfWorkers filterIn proc sched =
     run filterIn proc nOfWorkers sched (initial repoPages nOfWorkers)"

subsection \<open>RunForOrganization\<close>




section \<open>Dispatcher invariants\<close>

text \<open>
  What the counters say at each statement of the producer, \<open>all\<close> being the records of
  all pages in order: \<open>mInspected\<close> counts the records looked at so far, \<open>mProcessed\<close>
  those of them the filter accepted (the record in hand is counted in \<open>mInspected\<close>
  first, and in \<open>mProcessed\<close> once it is accepted).
\<close>

definition producerCounts :: "(Repository \<Rightarrow> bool) \<Rightarrow> Repository list \<Rightarrow> dstate \<Rightarrow> bool" where
  "producerCounts f all s =
     (case producer s of
        PLoop rs \<Rightarrow>
          (\<exists>seen. all = seen @ rs \<and> mInspected s = int (length seen) \<and>
                  mProcessed s = int (length (filter f seen)))
      | PInspected r rs \<Rightarrow>
          (\<exists>seen. all = seen @ r # rs \<and> mInspected s = int (length seen) + 1 \<and>
                  mProcessed s = int (length (filter f seen)))
      | PSelect r rs \<Rightarrow>
          (\<exists>seen. all = seen @ r # rs \<and> f r \<and> mInspected s = int (length seen) + 1 \<and>
                  mProcessed s = int (length (filter f seen)) + 1)
      | PSend r rs \<Rightarrow>
          (\<exists>seen. all = seen @ r # rs \<and> f r \<and> mInspected s = int (length seen) + 1 \<and>
                  mProcessed s = int (length (filter f seen)) + 1)
      | PDeferred \<Rightarrow>
          (\<exists>seen. prefix seen all \<and> mInspected s = int (length seen) \<and>
                  mProcessed s = int (length (filter f seen)))
      | PExit \<Rightarrow>
          (\<exists>seen. prefix seen all \<and> mInspected s = int (length seen) \<and>
                  mProcessed s = int (length (filter f seen))))"

text \<open>The producer has walked all records and left.\<close>

definition producerFinished :: "(Repository \<Rightarrow> bool) \<Rightarrow> Repository list \<Rightarrow> dstate \<Rightarrow> bool" where
  "producerFinished f all s =
     ((producer s = PDeferred \<or> producer s = PExit) \<and> mInspected s = int (length all) \<and>
      mProcessed s = int (length (filter f all)))"

text \<open>The statements of the caller that lie behind one of its own \<open>close(doneC)\<close>, or behind a return with an error.\<close>

fun callerClosedDone :: "main_pc \<Rightarrow> bool" where
  "callerClosedDone (MErrWait e) = True"
| "callerClosedDone (MReturned res (Some e)) = True"
| "callerClosedDone m = False"

definition finalResult :: "(Repository \<Rightarrow> bool) \<Rightarrow> Repository list \<Rightarrow> Result" where
  "finalResult f all =
     \<lparr>Found = int (length all), Inspected = int (length all),
      Processed = int (length (filter f all))\<rparr>"

definition countersInv :: "(Repository \<Rightarrow> bool) \<Rightarrow> Repository list \<Rightarrow> dstate \<Rightarrow> bool" where
  "countersInv f all s =
     (mFound s = int (length all) \<and> producerCounts f all s \<and>
      (doneC_closed s \<longrightarrow> callerClosedDone (mainG s) \<or> producerFinished f all s) \<and>
      (mainG s = MDoneWait \<longrightarrow> doneC_closed s) \<and>
      (mainG s = MCtxWait \<or> mainG s = MCtxCheck \<or> mainG s = MCtxClose \<longrightarrow> ctx_Err s \<noteq> None) \<and>
      (\<forall>res. mainG s = MReturned res None \<longrightarrow> res = finalResult f all) \<and>
      (\<forall>res e. mainG s = MReturned res (Some e) \<longrightarrow> res = Result_zero))"

text \<open>
  An error a worker sends: the result of \<open>processRepository\<close> for a record that passed
  the filter, not the missing default branch, wrapped with the record's full name.
\<close>

definition workerError ::
  "(Repository \<Rightarrow> bool) \<Rightarrow> (Repository \<Rightarrow> error option) \<Rightarrow> Repository list \<Rightarrow> error \<Rightarrow> bool" where
  "workerError f proc all err =
     (\<exists>repo\<in>set all. f repo \<and>
        (case proc repo of
           None \<Rightarrow> False
         | Some e \<Rightarrow> \<not> errors_Is e errNoDefaultBranch \<and>
                     err = Wrapf ''processing %q: %w'' [Name repo] e))"

text \<open>Every record on its way to a worker is a record of the pages that passed the filter.\<close>

fun producerRecordsOk :: "(Repository \<Rightarrow> bool) \<Rightarrow> Repository list \<Rightarrow> producer_pc \<Rightarrow> bool" where
  "producerRecordsOk f all (PLoop rs) = (set rs \<subseteq> set all)"
| "producerRecordsOk f all (PInspected r rs) = (r \<in> set all \<and> set rs \<subseteq> set all)"
| "producerRecordsOk f all (PSelect r rs) = (r \<in> set all \<and> f r \<and> set rs \<subseteq> set all)"
| "producerRecordsOk f all (PSend r rs) = (r \<in> set all \<and> f r \<and> set rs \<subseteq> set all)"
| "producerRecordsOk f all PDeferred = True"
| "producerRecordsOk f all PExit = True"

fun workerRecordOk :: "(Repository \<Rightarrow> bool) \<Rightarrow> Repository list \<Rightarrow> worker_pc \<Rightarrow> bool" where
  "workerRecordOk f all (WSelect r) = (r \<in> set all \<and> f r)"
| "workerRecordOk f all w = True"

definition inFlight :: "(Repository \<Rightarrow> bool) \<Rightarrow> Repository list \<Rightarrow> dstate \<Rightarrow> bool" where
  "inFlight f all s =
     (producerRecordsOk f all (producer s) \<and>
      (\<forall>r\<in>set (repoC s). r \<in> set all \<and> f r) \<and>
      (\<forall>w\<in>set (workers s). workerRecordOk f all w))"

text \<open>Every error on its way to the caller is a worker's; a returned error is one, or the context's.\<close>

fun workerErrorOk :: "(error \<Rightarrow> bool) \<Rightarrow> worker_pc \<Rightarrow> bool" where
  "workerErrorOk W (WSend e) = W e"
| "workerErrorOk W w = True"

fun callerErrorOk :: "(error \<Rightarrow> bool) \<Rightarrow> error option \<Rightarrow> main_pc \<Rightarrow> bool" where
  "callerErrorOk W c (MErrReceived e) = W e"
| "callerErrorOk W c (MErrWait e) = W e"
| "callerErrorOk W c MCtxWait = (c \<noteq> None)"
| "callerErrorOk W c MCtxCheck = (c \<noteq> None)"
| "callerErrorOk W c MCtxClose = (c \<noteq> None)"
| "callerErrorOk W c (MReturned res (Some e)) = (Some e = c \<or> W e)"
| "callerErrorOk W c (MReturned res None) = True"
| "callerErrorOk W c MSelect = True"
| "callerErrorOk W c MDoneWait = True"

definition errorsInv ::
  "(Repository \<Rightarrow> bool) \<Rightarrow> (Repository \<Rightarrow> error option) \<Rightarrow> Repository list \<Rightarrow> dstate \<Rightarrow> bool" where
  "errorsInv f proc all s =
     ((\<forall>e\<in>set (errC s). workerError f proc all e) \<and>
      (\<forall>w\<in>set (workers s). workerErrorOk (workerError f proc all) w) \<and>
      callerErrorOk (workerError f proc all) (ctx_Err s) (mainG s))"

text \<open>
  A fatal error has been seen: a worker holds one, one is buffered in \<open>errC\<close>, or the
  caller is on one of its error paths.
\<close>

fun isWSend :: "worker_pc \<Rightarrow> bool" where
  "isWSend (WSend e) = True"
| "isWSend w = False"

fun callerOnErrorPath :: "main_pc \<Rightarrow> bool" where
  "callerOnErrorPath MSelect = False"
| "callerOnErrorPath MDoneWait = False"
| "callerOnErrorPath (MReturned res None) = False"
| "callerOnErrorPath m = True"

definition failureSeen :: "dstate \<Rightarrow> bool" where
  "failureSeen s = (list_ex isWSend (workers s) \<or> errC s \<noteq> [] \<or> callerOnErrorPath (mainG s))"

definition returnedOkInv :: "dstate \<Rightarrow> bool" where
  "returnedOkInv s =
     ((\<forall>res. mainG s = MReturned res None \<longrightarrow> allExited (workers s) \<and> errC s = []) \<and>
      (mainG s = MCtxWait \<or> mainG s = MCtxCheck \<or> mainG s = MCtxClose \<longrightarrow> ctx_Err s \<noteq> None))"

text \<open>Once \<open>doneC\<close> is closed, the queue holds at most \<open>k\<close> records, the one being sent included.\<close>

definition beingSent :: "producer_pc \<Rightarrow> nat" where
  "beingSent p = (case p of PSend r rs \<Rightarrow> 1 | _ \<Rightarrow> 0)"

definition stoppedDispatch :: "nat \<Rightarrow> dstate \<Rightarrow> bool" where
  "stoppedDispatch k s = (doneC_closed s \<and> length (repoC s) + beingSent (producer s) \<le> k)"

fun callerBehindDone :: "main_pc \<Rightarrow> bool" where
  "callerBehindDone (MErrWait e) = True"
| "callerBehindDone MDoneWait = True"
| "callerBehindDone (MReturned res err) = True"
| "callerBehindDone m = False"

definition doneAfterReturn :: "dstate \<Rightarrow> bool" where
  "doneAfterReturn s = (callerBehindDone (mainG s) \<longrightarrow> doneC_closed s)"

text \<open>
  A record is harmless when \<open>processRepository\<close> succeeds on it or reports the missing
  default branch. A schedule is undisturbed when the context is never cancelled.
\<close>

definition harmless :: "(Repository \<Rightarrow> error option) \<Rightarrow> Repository \<Rightarrow> bool" where
  "harmless proc repo =
     (case proc repo of None \<Rightarrow> True | Some e \<Rightarrow> errors_Is e errNoDefaultBranch)"

fun isCancel :: "actor \<Rightarrow> bool" where
  "isCancel (Cancel e) = True"
| "isCancel a = False"

fun callerOnQuietPath :: "main_pc \<Rightarrow> bool" where
  "callerOnQuietPath MSelect = True"
| "callerOnQuietPath MDoneWait = True"
| "callerOnQuietPath (MReturned res None) = True"
| "callerOnQuietPath m = False"

definition quietInv :: "dstate \<Rightarrow> bool" where
  "quietInv s =
     (\<not> panicked s \<and> ctx_Err s = None \<and> errC s = [] \<and> \<not> list_ex isWSend (workers s) \<and>
      callerOnQuietPath (mainG s) \<and>
      (doneC_closed s \<longrightarrow> producer s = PDeferred \<or> producer s = PExit))"

section \<open>Example inputs\<close>

definition exampleRepo :: Repository where
  "exampleRepo =
     \<lparr>Name = ''org/repo'', URL = ''https://github.com/org/repo.git'',
      SSHURL = ''git@github.com:org/repo.git'', DefaultBranchName = ''main'',
      Archived = False, Language = ''Go'', Visibility = ''public'', Fork = False, Size = 100,
      PushedAt = \<lparr>Year = 2024, Month = 1, Day = 5, Hour = 10, Minute = 0, Second = 0, Nanosecond = 0\<rparr>\<rparr>"

text \<open>A compiler that accepts no expression, and the programs of two expressions.\<close>

definition rejectAll :: "string \<Rightarrow> error + cel_program" where
  "rejectAll cond = Inl (Foreign ''Syntax error'')"

text \<open>The program of \<open>repo.name\<close>: it selects a field; its value is a string.\<close>

definition prg_repo_name :: cel_program where
  "prg_repo_name act =
     (case map_of act ''repo'' of
        Some (MapV m) \<Rightarrow>
          (case map_of m ''name'' of Some v \<Rightarrow> Inr v | None \<Rightarrow> Inl (Foreign ''no such key: name''))
      | _ \<Rightarrow> Inl (Foreign ''no such attribute: repo''))"

text \<open>The program of \<open>repo.Size\<close>: the activation has no such key, so evaluation fails.\<close>

definition prg_repo_Size :: cel_program where
  "prg_repo_Size act =
     (case map_of act ''repo'' of
        Some (MapV m) \<Rightarrow>
          (case map_of m ''Size'' of Some v \<Rightarrow> Inr v | None \<Rightarrow> Inl (Foreign ''no such key: Size''))
      | _ \<Rightarrow> Inl (Foreign ''no such attribute: repo''))"

text \<open>
  A world in which nothing exists yet and every command succeeds: no clone directory is
  there, the listing answers one page with the example repository, the clock reads
  half past a second.
\<close>

definition okWorld :: world where
  "okWorld =
     \<lparr>reposDir = ''/tmp/gh-iterator'',
      os_Stat = (\<lambda>tr p. StatNotExist),
      os_MkdirAll = (\<lambda>tr p. None),
      os_RemoveAll = (\<lambda>tr p. None),
      os_Create = (\<lambda>tr p. None),
      fmt_Fprintln = (\<lambda>tr p l. None),
      task_Execute =
        (\<lambda>tr dir command args. Inr \<lparr>Stdout = ''[]'', Stderr = [], ExitCode = 0, Cancelled = False\<rparr>),
      time_Now =
        (\<lambda>tr. \<lparr>Year = 2024, Month = 1, Day = 5, Hour = 10, Minute = 4, Second = 9,
              Nanosecond = 500000000\<rparr>),
      randSequence = (\<lambda>tr n. ''abcdefghi''),
      processor = (\<lambda>tr repository isEmpty dir. None),
      md5_Sum = (\<lambda>s. replicate 16 (CHR ''a'')),
      path_Join = (\<lambda>a b. a @ ''/'' @ b),
      json_Repository = (\<lambda>s. Inr exampleRepo),
      json_Page = (\<lambda>s. Inr [exampleRepo]),
      json_ghErrResponse = (\<lambda>s. None),
      bufio_ScanLines = (\<lambda>s. ([s], None)),
      Duration_String = (\<lambda>d. ''1h0m0s'')\<rparr>"

definition exampleOptions :: Options where
  "exampleOptions =
     \<lparr>UseHTTPS = False, CloneCacheKey = None, CloningSubset = [], NumberOfWorkers = 0\<rparr>"

text \<open>The clock of \<open>okWorld\<close> one month later.\<close>

definition februaryClock :: Time where
  "februaryClock =
     \<lparr>Year = 2024, Month = 2, Day = 5, Hour = 10, Minute = 4, Second = 9, Nanosecond = 500000000\<rparr>"

text \<open>
  Three pages of sizes 2, 1 and 3, two of the six records archived; two workers; a
  schedule that lets every goroutine move in turn (the caller taking the \<open>doneC\<close> case
  of its select).
\<close>

definition archivedRepo :: Repository where
  "archivedRepo = exampleRepo\<lparr>Name := ''org/old'', Archived := True\<rparr>"

definition scenarioPages :: "Repository list list" where
  "scenarioPages =
     [[exampleRepo, archivedRepo], [exampleRepo\<lparr>Name := ''org/b''\<rparr>],
      [archivedRepo, exampleRepo\<lparr>Name := ''org/c''\<rparr>, exampleRepo\<lparr>Name := ''org/d''\<rparr>]]"

definition roundRobin :: "nat \<Rightarrow> actor list" where
  "roundRobin k = concat (replicate k [Producer, Worker 0, Worker 1, MainSelect CaseDone, Main])"

(*EXAMPLES*)

section \<open>Filter chain: theorems\<close>

text \<open>
  Claim C1 (as the code has it). The chain compiled from options with nothing configured
  (no languages, default conditions, no custom predicate) accepts every repository. The
  exclusion of archived, forked and empty repositories is the command's default
  predicate: for an empty search condition \<open>parseSearchFilterIn\<close> returns it, and the
  chain compiled from the command's options then accepts a repository exactly when it is
  not archived, not a fork and its size is positive.
\<close>

theorem no_filters_accepts_all_and_command_default_excludes:
  "MakeFilterIn SearchOptions_zero r \<and>
   (\<exists>f. parseSearchFilterIn compile [] = Inr f \<and>
        (\<forall>r'. MakeFilterIn (mainSearchOptions f perPage p) r' =
              (\<not> Archived r' \<and> \<not> Fork r' \<and> Size r' > 0)))"
  by (simp add: parseSearchFilterIn_def MakeFilterIn_def mainSearchOptions_def
      SearchOptions_zero_def defaultSearchFilterIn_def)

theorem no_filters_accepts_all_and_command_default_excludes_witness:
  "MakeFilterIn SearchOptions_zero exampleRepo \<and>
   (\<exists>f. parseSearchFilterIn rejectAll [] = Inr f \<and>
        (\<forall>r'. MakeFilterIn (mainSearchOptions f 100 (- 1)) r' =
              (\<not> Archived r' \<and> \<not> Fork r' \<and> Size r' > 0)))"
  using no_filters_accepts_all_and_command_default_excludes [of exampleRepo rejectAll 100 "- 1"]
  by simp

text \<open>
  The claim as it was stated fails: with nothing configured, a repository that is
  archived, a fork and empty passes the compiled chain.
\<close>

theorem no_filters_excludes_counterexample:
  "MakeFilterIn SearchOptions_zero (exampleRepo\<lparr>Archived := True, Fork := True, Size := 0\<rparr>) \<and>
   Archived (exampleRepo\<lparr>Archived := True, Fork := True, Size := 0\<rparr>) \<and>
   Fork (exampleRepo\<lparr>Archived := True, Fork := True, Size := 0\<rparr>) \<and>
   Size (exampleRepo\<lparr>Archived := True, Fork := True, Size := 0\<rparr>) = 0"
  by (simp add: MakeFilterIn_def SearchOptions_zero_def)

text \<open>
  Claim C4 (as the code has it). The predicate compiled from an expression never fails:
  when evaluation returns an error it answers false and hands one error record to the
  logger; when evaluation yields a value that is not a boolean it answers false and logs
  nothing; a boolean is returned as it is.
\<close>

theorem celFilterIn_fail_closed:
  "(prg [(''repo'', MapV (repoMap r))] = Inl err \<longrightarrow>
      celFilterIn prg r =
        (False, [LogRecord LevelError ''Failed to evaluate CEL expression'' [ErrorAttr ''error'' err]])) \<and>
   (prg [(''repo'', MapV (repoMap r))] = Inr v \<and> (\<forall>b. v \<noteq> BoolV b) \<longrightarrow>
      celFilterIn prg r = (False, [])) \<and>
   (prg [(''repo'', MapV (repoMap r))] = Inr (BoolV b) \<longrightarrow> celFilterIn prg r = (b, [])) \<and>
   (cond \<noteq> [] \<and> compile cond = Inr prg \<longrightarrow>
      parseSearchFilterIn compile cond = Inr (celFilterIn prg))"
  by (cases v) (auto simp add: celFilterIn_def parseSearchFilterIn_def)

theorem celFilterIn_fail_closed_witness:
  "celFilterIn prg_repo_Size exampleRepo =
     (False, [LogRecord LevelError ''Failed to evaluate CEL expression''
                [ErrorAttr ''error'' (Foreign ''no such key: Size'')]]) \<and>
   celFilterIn (\<lambda>act. Inr (IntV 1)) exampleRepo = (False, []) \<and>
   celFilterIn (\<lambda>act. Inr (BoolV True)) exampleRepo = (True, []) \<and>
   parseSearchFilterIn (\<lambda>c. Inr prg_repo_Size) ''repo.Size'' = Inr (celFilterIn prg_repo_Size)"
  using celFilterIn_fail_closed [of prg_repo_Size exampleRepo "Foreign ''no such key: Size''"
      "IntV 1" True "''repo.Size''" "\<lambda>c. Inr prg_repo_Size"]
    celFilterIn_fail_closed [of "\<lambda>act. Inr (IntV 1)" exampleRepo "Foreign []" "IntV 1" True
      "''x''" "\<lambda>c. Inr (\<lambda>act. Inr (IntV 1))"]
    celFilterIn_fail_closed [of "\<lambda>act. Inr (BoolV True)" exampleRepo "Foreign []" "IntV 1" True
      "''x''" "\<lambda>c. Inr (\<lambda>act. Inr (BoolV True))"]
  by (simp add: prg_repo_Size_def repoMap_def)

text \<open>
  The claim as it was stated fails for a value that is not a boolean: the expression
  \<open>repo.name\<close> evaluates to a string, and the predicate answers false without any
  record for the logger.
\<close>

theorem celFilterIn_non_boolean_counterexample:
  "prg_repo_name [(''repo'', MapV (repoMap exampleRepo))] = Inr (StringV ''org/repo'') \<and>
   celFilterIn prg_repo_name exampleRepo = (False, [])"
  by (simp add: celFilterIn_def prg_repo_name_def repoMap_def exampleRepo_def)

section \<open>Traces only grow\<close>

text \<open>Every operation appends to the trace of effects it is given.\<close>

lemma RunX_trace: "snd (RunX w dir command args tr) = tr @ [TaskExecute dir command args]"
  by (simp add: RunX_def Let_def split: sum.splits)

lemma RunX_prefix: "RunX w dir command args tr = (res, tr') \<Longrightarrow> prefix tr tr'"
  using RunX_trace [of w dir command args tr] by auto

lemma printLines_prefix: "printLines w p ls tr = (res, tr') \<Longrightarrow> prefix tr tr'"
proof (induction ls arbitrary: tr)
  case Nil
  then show ?case by simp
next
  case (Cons l ls)
  show ?case
  proof (cases "fmt_Fprintln w tr p l")
    case None
    with Cons.prems have "printLines w p ls (tr @ [Fprintln p l]) = (res, tr')" by simp
    then have "prefix (tr @ [Fprintln p l]) tr'" by (rule Cons.IH)
    then show ?thesis by (rule append_prefixD)
  next
    case (Some e)
    with Cons.prems show ?thesis by auto
  qed
qed

lemma fillLines_prefix: "fillLines w p ls tr = (res, tr') \<Longrightarrow> prefix tr tr'"
  by (auto simp: fillLines_def split: option.splits prod.splits
      dest!: printLines_prefix dest: append_prefixD intro: prefix_order.trans)

lemma sparseCheckout_prefix: "sparseCheckout w d opts tr = (res, tr') \<Longrightarrow> prefix tr tr'"
  by (auto simp: sparseCheckout_def split: option.splits prod.splits
      dest!: RunX_prefix fillLines_prefix intro: prefix_order.trans)

lemma fetchAndCheckout_prefix: "fetchAndCheckout w repo d tr = (res, tr') \<Longrightarrow> prefix tr tr'"
  by (auto simp: fetchAndCheckout_def split: option.splits prod.splits
      dest!: RunX_prefix intro: prefix_order.trans)

lemma cloneSetup_prefix: "cloneSetup w repo d opts tr = (res, tr') \<Longrightarrow> prefix tr tr'"
  by (auto simp: cloneSetup_def Let_def split: option.splits prod.splits if_splits
      dest!: RunX_prefix sparseCheckout_prefix intro: prefix_order.trans)

lemma cloneRepository_prefix: "cloneRepository w repo d opts tr = (res, tr') \<Longrightarrow> prefix tr tr'"
  by (auto simp: cloneRepository_def split: option.splits prod.splits if_splits
      dest!: cloneSetup_prefix fetchAndCheckout_prefix intro: prefix_order.trans)

lemma statOrClone_prefix: "statOrClone w repo d opts tr = (res, tr') \<Longrightarrow> prefix tr tr'"
  by (auto simp: statOrClone_def Let_def split: option.splits prod.splits stat_result.splits
      dest!: cloneRepository_prefix dest: append_prefixD intro: prefix_order.trans)

lemma copyCloneDir_prefix: "copyCloneDir w d tr = (res, tr') \<Longrightarrow> prefix tr tr'"
  by (auto simp: copyCloneDir_def Let_def split: option.splits prod.splits
      dest!: RunX_prefix dest: append_prefixD intro: prefix_order.trans)

lemma cloneRepositoryOrGetFromCache_prefix:
  "cloneRepositoryOrGetFromCache w repo opts tr = (res, tr') \<Longrightarrow> prefix tr tr'"
  by (auto simp: cloneRepositoryOrGetFromCache_def Let_def split: option.splits prod.splits if_splits
      dest!: statOrClone_prefix copyCloneDir_prefix dest: append_prefixD intro: prefix_order.trans)

lemma processRepository_prefix:
  "processRepository w repo opts tr = (res, tr') \<Longrightarrow> prefix tr tr'"
  by (auto simp: processRepository_def Let_def split: option.splits prod.splits if_splits sum.splits
      dest!: cloneRepositoryOrGetFromCache_prefix dest: append_prefixD intro: prefix_order.trans)

section \<open>Processing an empty repository\<close>



section \<open>Entry points: validation\<close>

text \<open>
  Claim C9. \<open>RunForRepository\<close> returns the error "incorrect repository name" exactly
  when the name holds more than one slash, and then it has done nothing else (the trace
  is unchanged). A name with at most one slash, so also one with none, passes: the next
  thing that happens is the fetch \<open>gh api ... /repos/<name>\<close>.
\<close>

theorem RunForRepository_name_validation:
  "(fst (RunForRepository w repoName opts tr) = Some (New ''incorrect repository name %q'' [repoName])
      \<longleftrightarrow> Count_slash repoName > 1) \<and>
   (Count_slash repoName > 1 \<longrightarrow> snd (RunForRepository w repoName opts tr) = tr) \<and>
   (Count_slash repoName \<le> 1 \<longrightarrow>
      prefix (tr @ [TaskExecute ''.'' ''gh'' (ghApiHeaders @ [''--jq'', repoFieldsJq, ''/repos/'' @ repoName])])
        (snd (RunForRepository w repoName opts tr)))"
proof (cases "Count_slash repoName > 1")
  case True
  then show ?thesis by (simp add: RunForRepository_def)
next
  case False
  let ?args = "ghApiHeaders @ [''--jq'', repoFieldsJq, ''/repos/'' @ repoName]"
  obtain out e where r: "RunX w ''.'' ''gh'' ?args tr = ((out, e), tr @ [TaskExecute ''.'' ''gh'' ?args])"
    using RunX_trace [of w "''.''" "''gh''" ?args tr]
    by (metis prod.collapse)
  show ?thesis
  proof (cases e)
    case (Some err)
    with False r show ?thesis by (simp add: RunForRepository_def)
  next
    case None
    show ?thesis
    proof (cases "json_Repository w out")
      case (Inl err)
      with False r None show ?thesis by (simp add: RunForRepository_def)
    next
      case (Inr repo)
      obtain res tr2 where
        p: "processRepository w repo opts (tr @ [TaskExecute ''.'' ''gh'' ?args]) = (res, tr2)"
        by (cases "processRepository w repo opts (tr @ [TaskExecute ''.'' ''gh'' ?args])")
      then have "prefix (tr @ [TaskExecute ''.'' ''gh'' ?args]) tr2"
        by (rule processRepository_prefix)
      with False r None Inr p show ?thesis
        by (cases res) (simp_all add: RunForRepository_def)
    qed
  qed
qed

theorem RunForRepository_name_validation_witness:
  "RunForRepository okWorld ''org/team/repo'' exampleOptions [] =
     (Some (New ''incorrect repository name %q'' [''org/team/repo'']), []) \<and>
   Count_slash ''repo'' = 0 \<and>
   fst (RunForRepository okWorld ''repo'' exampleOptions []) \<noteq>
     Some (New ''incorrect repository name %q'' [''repo'']) \<and>
   prefix [TaskExecute ''.'' ''gh'' (ghApiHeaders @ [''--jq'', repoFieldsJq, ''/repos/repo''])]
     (snd (RunForRepository okWorld ''repo'' exampleOptions []))"
proof -
  have many: "Count_slash ''org/team/repo'' > 1" and none: "Count_slash ''repo'' = 0"
    by (simp_all add: Count_slash_def)
  show ?thesis
    using RunForRepository_name_validation [of okWorld "''org/team/repo''" exampleOptions "[]"]
      RunForRepository_name_validation [of okWorld "''repo''" exampleOptions "[]"] many none
    by (simp add: prod_eq_iff)
qed












section \<open>Clone directory names\<close>

text \<open>
  Claim C2 (as the code has it). For one repository and cache key, the directory name
  depends on the sparse-checkout subset only through \<open>hashCloningSubset\<close>, the first 16
  hexadecimal digits of the MD5 of the entries joined with \<open>|\<close>, and an empty subset
  adds nothing to the name. So equal subsets give equal names, and two subsets give the
  same name exactly when both are empty or both are non-empty with the same truncated
  digest; subsets whose joined texts agree always do.
\<close>

theorem cloneDirName_subset:
  "(cloneDirName w repo key cs1 = cloneDirName w repo key cs2 \<longleftrightarrow>
      (cs1 = [] \<and> cs2 = []) \<or>
      (cs1 \<noteq> [] \<and> cs2 \<noteq> [] \<and> hashCloningSubset w cs1 = hashCloningSubset w cs2)) \<and>
   (Join cs1 ''|'' = Join cs2 ''|'' \<longrightarrow> hashCloningSubset w cs1 = hashCloningSubset w cs2)"
  by (auto simp: cloneDirName_def hashCloningSubset_def)

theorem cloneDirName_subset_witness:
  "Join [''docs|'', ''src''] ''|'' = Join [''docs'', ''|src''] ''|'' \<and>
   cloneDirName okWorld exampleRepo ''k'' [''docs|'', ''src''] =
     cloneDirName okWorld exampleRepo ''k'' [''docs'', ''|src''] \<and>
   cloneDirName okWorld exampleRepo ''k'' [] \<noteq> cloneDirName okWorld exampleRepo ''k'' [''docs'']"
  using cloneDirName_subset [of okWorld exampleRepo "''k''" "[''docs|'', ''src'']" "[''docs'', ''|src'']"]
    cloneDirName_subset [of okWorld exampleRepo "''k''" "[]" "[''docs'']"]
  by simp

text \<open>
  The claim as it was stated fails: the subsets \<open>["a|b"]\<close> and \<open>["a", "b"]\<close> differ and
  get the same directory name, whatever the MD5 function is.
\<close>

theorem cloneDirName_subset_collision_counterexample:
  "(\<forall>w. cloneDirName w exampleRepo ''k'' [''a|b''] = cloneDirName w exampleRepo ''k'' [''a'', ''b'']) \<and>
   [''a|b''] \<noteq> [''a'', ''b'']"
  by (simp add: cloneDirName_def hashCloningSubset_def)

subsection \<open>The synthesized cache key\<close>

lemma length_padDigits [simp]: "length (padDigits k n) = k"
  by (induction k arbitrary: n) auto

lemma digit_inj: "a < 10 \<Longrightarrow> b < 10 \<Longrightarrow> char_of (48 + a :: nat) = char_of (48 + b) \<Longrightarrow> a = b"
  by (simp add: char_of_quasi_inj)

lemma padDigits_inj:
  "n < 10 ^ k \<Longrightarrow> m < 10 ^ k \<Longrightarrow> padDigits k n = padDigits k m \<Longrightarrow> n = m"
proof (induction k arbitrary: n m)
  case 0
  then show ?case by simp
next
  case (Suc k)
  from Suc.prems have d: "n div 10 < 10 ^ k" "m div 10 < 10 ^ k"
    by (simp_all add: less_mult_imp_div_less mult.commute)
  from Suc.prems(3) have e: "padDigits k (n div 10) = padDigits k (m div 10)"
    and c: "char_of (48 + n mod 10) = char_of (48 + m mod 10)"
    by simp_all
  from c have "n mod 10 = m mod 10" by (rule digit_inj [rotated 2]) simp_all
  moreover from Suc.IH [OF d e] have "n div 10 = m div 10" .
  moreover have "n = 10 * (n div 10) + n mod 10" "m = 10 * (m div 10) + m mod 10" by simp_all
  ultimately show ?case by (simp only:)
qed

lemma trimZeros_restore:
  "trimZeros ds @ replicate (length ds - length (trimZeros ds)) (CHR ''0'') = ds"
proof -
  let ?P = "\<lambda>c. c = CHR ''0''"
  let ?t = "takeWhile ?P (rev ds)"
  let ?d = "dropWhile ?P (rev ds)"
  have split: "?t @ ?d = rev ds" by (rule takeWhile_dropWhile_id)
  have "ds = rev (rev ds)" by simp
  also have "\<dots> = rev (?t @ ?d)" by (simp only: split)
  also have "\<dots> = rev ?d @ rev ?t" by (rule rev_append)
  finally have ds: "ds = rev ?d @ rev ?t" .
  have "\<forall>y\<in>set ?t. y = CHR ''0''" using set_takeWhileD [of _ ?P "rev ds"] by blast
  then have rep: "replicate (length ?t) (CHR ''0'') = ?t" by (rule replicate_length_same)
  have "length (rev ds) = length (?t @ ?d)" by (simp only: split)
  then have "length (rev ds) = length ?t + length ?d" by (simp only: length_append)
  then have len: "length ds - length (rev ?d) = length ?t" by simp
  have "rev ?t = rev (replicate (length ?t) (CHR ''0''))" using rep by simp
  then have revt: "replicate (length ?t) (CHR ''0'') = rev ?t" by simp
  have "rev ?d @ replicate (length ds - length (rev ?d)) (CHR ''0'') = rev ?d @ rev ?t"
    by (simp only: len revt)
  also have "\<dots> = ds" by (rule ds [symmetric])
  finally show ?thesis unfolding trimZeros_def .
qed

lemma trimZeros_inj:
  assumes "length a = length b" and "trimZeros a = trimZeros b"
  shows "a = b"
proof -
  have "a = trimZeros a @ replicate (length a - length (trimZeros a)) (CHR ''0'')"
    by (simp add: trimZeros_restore)
  also have "\<dots> = trimZeros b @ replicate (length b - length (trimZeros b)) (CHR ''0'')"
    using assms by simp
  also have "\<dots> = b" by (simp add: trimZeros_restore)
  finally show ?thesis .
qed

lemma formatNano_inj:
  assumes "n < 1000000000" and "m < 1000000000" and "formatNano n = formatNano m"
  shows "n = m"
proof (cases "n = 0 \<or> m = 0")
  case True
  with assms(3) show ?thesis by (auto simp: formatNano_def split: if_splits)
next
  case False
  with assms(3) have "trimZeros (padDigits 9 n) = trimZeros (padDigits 9 m)"
    by (simp add: formatNano_def)
  then have "padDigits 9 n = padDigits 9 m" by (rule trimZeros_inj [rotated]) simp_all
  have p: "padDigits 9 n = padDigits 9 m" by fact
  have "n < 10 ^ 9" "m < 10 ^ 9" using assms(1,2) by simp_all
  then show ?thesis using p by (rule padDigits_inj)
qed

lemma padDigits2_inj: "n < 100 \<Longrightarrow> m < 100 \<Longrightarrow> padDigits 2 n = padDigits 2 m \<Longrightarrow> n = m"
  by (rule padDigits_inj [of n 2 m]) simp_all

lemma Format_cacheKey_inj:
  assumes v1: "validClock t1" and v2: "validClock t2"
    and eq: "Format_cacheKey t1 = Format_cacheKey t2"
  shows "Day t1 = Day t2 \<and> Hour t1 = Hour t2 \<and> Minute t1 = Minute t2 \<and> Second t1 = Second t2 \<and>
         Nanosecond t1 = Nanosecond t2"
proof -
  from eq have parts:
    "padDigits 2 (Day t1) = padDigits 2 (Day t2)"
    "padDigits 2 (Hour t1) = padDigits 2 (Hour t2)"
    "padDigits 2 (Minute t1) = padDigits 2 (Minute t2)"
    "padDigits 2 (Second t1) = padDigits 2 (Second t2)"
    "formatNano (Nanosecond t1) = formatNano (Nanosecond t2)"
    unfolding Format_cacheKey_def by simp_all
  from v1 v2 have b:
    "Day t1 < 100" "Day t2 < 100" "Hour t1 < 100" "Hour t2 < 100"
    "Minute t1 < 100" "Minute t2 < 100" "Second t1 < 100" "Second t2 < 100"
    "Nanosecond t1 < 1000000000" "Nanosecond t2 < 1000000000"
    unfolding validClock_def by simp_all
  have "Day t1 = Day t2" using b(1,2) parts(1) by (rule padDigits2_inj)
  moreover have "Hour t1 = Hour t2" using b(3,4) parts(2) by (rule padDigits2_inj)
  moreover have "Minute t1 = Minute t2" using b(5,6) parts(3) by (rule padDigits2_inj)
  moreover have "Second t1 = Second t2" using b(7,8) parts(4) by (rule padDigits2_inj)
  moreover have "Nanosecond t1 = Nanosecond t2" using b(9,10) parts(5) by (rule formatNano_inj)
  ultimately show ?thesis by simp
qed

lemma digit_chars:
  "char_of (48::nat) = CHR ''0''" "char_of (49::nat) = CHR ''1''" "char_of (50::nat) = CHR ''2''"
  "char_of (51::nat) = CHR ''3''" "char_of (52::nat) = CHR ''4''" "char_of (53::nat) = CHR ''5''"
  "char_of (54::nat) = CHR ''6''" "char_of (55::nat) = CHR ''7''" "char_of (56::nat) = CHR ''8''"
  "char_of (57::nat) = CHR ''9''"
  by code_simp+

lemma padDigits_2: "padDigits 2 n = [char_of (48 + n div 10 mod 10), char_of (48 + n mod 10)]"
  by (simp add: numeral_2_eq_2)

lemma padDigits_9:
  "padDigits 9 n =
     [char_of (48 + n div 100000000 mod 10), char_of (48 + n div 10000000 mod 10),
      char_of (48 + n div 1000000 mod 10), char_of (48 + n div 100000 mod 10),
      char_of (48 + n div 10000 mod 10), char_of (48 + n div 1000 mod 10),
      char_of (48 + n div 100 mod 10), char_of (48 + n div 10 mod 10), char_of (48 + n mod 10)]"
proof -
  have e: "Suc (Suc (Suc (Suc (Suc (Suc (Suc (Suc (Suc 0)))))))) = 9" by simp
  have "padDigits (Suc (Suc (Suc (Suc (Suc (Suc (Suc (Suc (Suc 0))))))))) n =
     [char_of (48 + n div 100000000 mod 10), char_of (48 + n div 10000000 mod 10),
      char_of (48 + n div 1000000 mod 10), char_of (48 + n div 100000 mod 10),
      char_of (48 + n div 10000 mod 10), char_of (48 + n div 1000 mod 10),
      char_of (48 + n div 100 mod 10), char_of (48 + n div 10 mod 10), char_of (48 + n mod 10)]"
    by (simp add: div_mult2_eq [symmetric])
  then show ?thesis unfolding e .
qed

lemma Format_cacheKey_example:
  "Format_cacheKey
     \<lparr>Year = y, Month = mo, Day = 5, Hour = 10, Minute = 4, Second = 9, Nanosecond = 500000000\<rparr> =
   ''05T10_04_09.5''"
  by (simp add: Format_cacheKey_def formatNano_def padDigits_2 padDigits_9 trimZeros_def digit_chars)

lemma cloneDirName_key_eq_iff:
  "cloneDirName w repo k1 cs = cloneDirName w repo k2 cs \<longleftrightarrow> k1 = k2"
  by (simp add: cloneDirName_def)

lemma cloneRepositoryOrGetFromCache_direct:
  assumes "callerCacheKey repo opts = []"
    and "fst (cloneRepositoryOrGetFromCache w repo opts tr) = Inr d"
  shows "d = path_Join w (reposDir w)
               (cloneDirName w repo (Format_cacheKey (time_Now w tr)) (CloningSubset opts))"
  using assms
  by (auto simp: cloneRepositoryOrGetFromCache_def Let_def split: prod.splits option.splits)

lemma acquire_example:
  "fst (cloneRepositoryOrGetFromCache okWorld exampleRepo exampleOptions []) =
     Inr ''/tmp/gh-iterator/org/repo-05T10_04_09.5''"
  by (simp add: cloneRepositoryOrGetFromCache_def callerCacheKey_def exampleOptions_def okWorld_def
      Format_cacheKey_example cloneDirName_def exampleRepo_def statOrClone_def cloneRepository_def
      cloneSetup_def RunX_def fetchAndCheckout_def Let_def)

lemma acquire_example_february:
  "fst (cloneRepositoryOrGetFromCache (okWorld\<lparr>time_Now := \<lambda>tr. februaryClock\<rparr>)
          exampleRepo exampleOptions []) =
     Inr ''/tmp/gh-iterator/org/repo-05T10_04_09.5''"
  by (simp add: cloneRepositoryOrGetFromCache_def callerCacheKey_def exampleOptions_def okWorld_def
      februaryClock_def Format_cacheKey_example cloneDirName_def exampleRepo_def statOrClone_def
      cloneRepository_def cloneSetup_def RunX_def fetchAndCheckout_def Let_def)

text \<open>
  Claim C8 (as the code has it). When the caller supplies no cache key function, or the
  function answers the empty string, the key is the clock reading of the call, printed
  as day of the month, hour, minute, second and nanoseconds, and the directory handed
  back is the clone directory of that name. For one repository and subset, two clock
  readings give the same directory name exactly when they agree in these five
  components: the key carries no month and no year, and nothing else makes it unique.
\<close>

theorem synthesized_cacheKey_is_the_clock_reading:
  "(callerCacheKey repo opts = [] \<and> fst (cloneRepositoryOrGetFromCache w repo opts tr) = Inr d \<longrightarrow>
      d = path_Join w (reposDir w)
            (cloneDirName w repo (Format_cacheKey (time_Now w tr)) (CloningSubset opts))) \<and>
   (validClock t1 \<and> validClock t2 \<longrightarrow>
      (cloneDirName w repo (Format_cacheKey t1) cs = cloneDirName w repo (Format_cacheKey t2) cs \<longleftrightarrow>
         Day t1 = Day t2 \<and> Hour t1 = Hour t2 \<and> Minute t1 = Minute t2 \<and> Second t1 = Second t2 \<and>
         Nanosecond t1 = Nanosecond t2))"
proof (intro conjI impI)
  assume "callerCacheKey repo opts = [] \<and> fst (cloneRepositoryOrGetFromCache w repo opts tr) = Inr d"
  then show "d = path_Join w (reposDir w)
            (cloneDirName w repo (Format_cacheKey (time_Now w tr)) (CloningSubset opts))"
    using cloneRepositoryOrGetFromCache_direct by blast
next
  assume v: "validClock t1 \<and> validClock t2"
  have "Format_cacheKey t1 = Format_cacheKey t2 \<longleftrightarrow>
         Day t1 = Day t2 \<and> Hour t1 = Hour t2 \<and> Minute t1 = Minute t2 \<and> Second t1 = Second t2 \<and>
         Nanosecond t1 = Nanosecond t2"
  proof
    assume "Format_cacheKey t1 = Format_cacheKey t2"
    with v show "Day t1 = Day t2 \<and> Hour t1 = Hour t2 \<and> Minute t1 = Minute t2 \<and>
         Second t1 = Second t2 \<and> Nanosecond t1 = Nanosecond t2"
      using Format_cacheKey_inj by blast
  next
    assume "Day t1 = Day t2 \<and> Hour t1 = Hour t2 \<and> Minute t1 = Minute t2 \<and> Second t1 = Second t2 \<and>
         Nanosecond t1 = Nanosecond t2"
    then show "Format_cacheKey t1 = Format_cacheKey t2"
      by (simp add: Format_cacheKey_def)
  qed
  then show "cloneDirName w repo (Format_cacheKey t1) cs = cloneDirName w repo (Format_cacheKey t2) cs \<longleftrightarrow>
         Day t1 = Day t2 \<and> Hour t1 = Hour t2 \<and> Minute t1 = Minute t2 \<and> Second t1 = Second t2 \<and>
         Nanosecond t1 = Nanosecond t2"
    by (simp only: cloneDirName_key_eq_iff)
qed

theorem synthesized_cacheKey_is_the_clock_reading_witness:
  "callerCacheKey exampleRepo exampleOptions = [] \<and>
   fst (cloneRepositoryOrGetFromCache okWorld exampleRepo exampleOptions []) =
     Inr (path_Join okWorld (reposDir okWorld)
            (cloneDirName okWorld exampleRepo (Format_cacheKey (time_Now okWorld [])) [])) \<and>
   validClock (time_Now okWorld []) \<and> validClock februaryClock \<and>
   cloneDirName okWorld exampleRepo (Format_cacheKey (time_Now okWorld [])) [] =
     cloneDirName okWorld exampleRepo (Format_cacheKey februaryClock) []"
proof -
  have c: "callerCacheKey exampleRepo exampleOptions = []"
    by (simp add: callerCacheKey_def exampleOptions_def)
  have v: "validClock (time_Now okWorld [])" "validClock februaryClock"
    by (simp_all add: validClock_def okWorld_def februaryClock_def)
  have s: "CloningSubset exampleOptions = []" by (simp add: exampleOptions_def)
  have e: "Day (time_Now okWorld []) = Day februaryClock \<and>
     Hour (time_Now okWorld []) = Hour februaryClock \<and>
     Minute (time_Now okWorld []) = Minute februaryClock \<and>
     Second (time_Now okWorld []) = Second februaryClock \<and>
     Nanosecond (time_Now okWorld []) = Nanosecond februaryClock"
    by (simp add: okWorld_def februaryClock_def)
  show ?thesis
    using synthesized_cacheKey_is_the_clock_reading [of exampleRepo exampleOptions okWorld "[]"
        "''/tmp/gh-iterator/org/repo-05T10_04_09.5''" "time_Now okWorld []" februaryClock "[]"]
      c v s e acquire_example
    by simp
qed

text \<open>
  The claim as it was stated fails: two calls without a cache key function, one month
  apart to the nanosecond, are handed the same clone directory for the same repository.
\<close>

theorem synthesized_cacheKey_not_unique_counterexample:
  "callerCacheKey exampleRepo exampleOptions = [] \<and>
   time_Now okWorld [] \<noteq> februaryClock \<and>
   fst (cloneRepositoryOrGetFromCache okWorld exampleRepo exampleOptions []) =
     Inr ''/tmp/gh-iterator/org/repo-05T10_04_09.5'' \<and>
   fst (cloneRepositoryOrGetFromCache (okWorld\<lparr>time_Now := \<lambda>tr. februaryClock\<rparr>)
          exampleRepo exampleOptions []) =
     Inr ''/tmp/gh-iterator/org/repo-05T10_04_09.5''"
proof -
  have "callerCacheKey exampleRepo exampleOptions = []"
    by (simp add: callerCacheKey_def exampleOptions_def)
  moreover have "time_Now okWorld [] \<noteq> februaryClock"
    by (simp add: okWorld_def februaryClock_def)
  ultimately show ?thesis
    using acquire_example acquire_example_february by simp
qed

section \<open>Dispatcher: steps and invariants\<close>

(*DISPATCH-LEMMAS*)

lemma countFound_eq: "countFound repoPages n = n + int (length (concat repoPages))"
  by (induction repoPages arbitrary: n) auto

lemma stepProducer_elim [consumes 1, case_names CloseTwice CloseDone Inspect Reject Accept Stop Default Send Deferred]:
  assumes "stepProducer f n s = Some s'"
  obtains
    (CloseTwice) "producer s = PLoop []" "doneC_closed s" "s' = s\<lparr>panicked := True\<rparr>"
  | (CloseDone) "producer s = PLoop []" "\<not> doneC_closed s"
      "s' = s\<lparr>doneC_closed := True, producer := PDeferred\<rparr>"
  | (Inspect) r rs where "producer s = PLoop (r # rs)"
      "s' = s\<lparr>mInspected := mInspected s + 1, producer := PInspected r rs\<rparr>"
  | (Reject) r rs where "producer s = PInspected r rs" "\<not> f r" "s' = s\<lparr>producer := PLoop rs\<rparr>"
  | (Accept) r rs where "producer s = PInspected r rs" "f r"
      "s' = s\<lparr>mProcessed := mProcessed s + 1, producer := PSelect r rs\<rparr>"
  | (Stop) r rs where "producer s = PSelect r rs" "ctx_Err s \<noteq> None \<or> doneC_closed s"
      "s' = s\<lparr>producer := PDeferred\<rparr>"
  | (Default) r rs where "producer s = PSelect r rs" "ctx_Err s = None" "\<not> doneC_closed s"
      "s' = s\<lparr>producer := PSend r rs\<rparr>"
  | (Send) r rs where "producer s = PSend r rs" "length (repoC s) < n"
      "s' = s\<lparr>repoC := repoC s @ [r], producer := PLoop rs\<rparr>"
  | (Deferred) "producer s = PDeferred" "s' = s\<lparr>repoC_closed := True, producer := PExit\<rparr>"
proof (cases "producer s")
  case (PLoop rs)
  with assms that(1,2,3) show ?thesis
    by (cases rs) (simp_all add: stepProducer_def split: if_splits)
next
  case (PInspected r rs)
  with assms that(4,5) show ?thesis
    by (simp add: stepProducer_def split: if_splits)
next
  case (PSelect r rs)
  with assms that(6,7) show ?thesis
    by (simp add: stepProducer_def split: if_splits)
next
  case (PSend r rs)
  with assms that(8) show ?thesis
    by (simp add: stepProducer_def split: if_splits)
next
  case PDeferred
  with assms that(9) show ?thesis
    by (simp add: stepProducer_def)
next
  case PExit
  with assms show ?thesis by (simp add: stepProducer_def)
qed

lemma stepWorker_elim [consumes 1, case_names Receive Leave Skip Ok NoBranch Fatal SendClosed SendErr]:
  assumes "stepWorker proc n i s = Some s'"
  obtains
    (Receive) repo q where "i < length (workers s)" "workers s ! i = WRange" "repoC s = repo # q"
      "s' = s\<lparr>repoC := q, workers := (workers s)[i := WSelect repo]\<rparr>"
  | (Leave) "i < length (workers s)" "workers s ! i = WRange" "repoC s = []" "repoC_closed s"
      "s' = s\<lparr>workers := (workers s)[i := WExit]\<rparr>"
  | (Skip) repo where "i < length (workers s)" "workers s ! i = WSelect repo" "ctx_Err s \<noteq> None"
      "s' = s\<lparr>workers := (workers s)[i := WRange]\<rparr>"
  | (Ok) repo where "i < length (workers s)" "workers s ! i = WSelect repo" "ctx_Err s = None"
      "proc repo = None" "s' = s\<lparr>workers := (workers s)[i := WRange]\<rparr>"
  | (NoBranch) repo err where "i < length (workers s)" "workers s ! i = WSelect repo"
      "ctx_Err s = None" "proc repo = Some err" "errors_Is err errNoDefaultBranch"
      "s' = s\<lparr>logged := logged s @ [noDefaultBranchWarning repo],
                workers := (workers s)[i := WRange]\<rparr>"
  | (Fatal) repo err where "i < length (workers s)" "workers s ! i = WSelect repo"
      "ctx_Err s = None" "proc repo = Some err" "\<not> errors_Is err errNoDefaultBranch"
      "s' = s\<lparr>workers := (workers s)[i := WSend (Wrapf ''processing %q: %w'' [Name repo] err)]\<rparr>"
  | (SendClosed) e where "i < length (workers s)" "workers s ! i = WSend e" "errC_closed s"
      "s' = s\<lparr>panicked := True\<rparr>"
  | (SendErr) e where "i < length (workers s)" "workers s ! i = WSend e" "\<not> errC_closed s"
      "length (errC s) < n" "s' = s\<lparr>errC := errC s @ [e], workers := (workers s)[i := WExit]\<rparr>"
proof -
  from assms have i: "i < length (workers s)"
    by (simp add: stepWorker_def split: if_splits)
  show ?thesis
  proof (cases "workers s ! i")
    case WRange
    with assms i that(1,2) show ?thesis
      by (cases "repoC s") (simp_all add: stepWorker_def split: if_splits)
  next
    case (WSelect repo)
    show ?thesis
    proof (cases "ctx_Err s = None")
      case False
      with assms i WSelect that(3) show ?thesis by (simp add: stepWorker_def)
    next
      case True
      with assms i WSelect that(4,5,6) show ?thesis
        by (cases "proc repo") (simp_all add: stepWorker_def split: if_splits)
    qed
  next
    case (WSend e)
    with assms i that(7,8) show ?thesis
      by (simp add: stepWorker_def split: if_splits)
  next
    case WExit
    with assms i show ?thesis by (simp add: stepWorker_def)
  qed
qed

lemma stepMainSelect_elim [consumes 1, case_names TakeErr Spin TakeCtx TakeDone]:
  assumes "stepMainSelect c s = Some s'"
  obtains
    (TakeErr) err q where "mainG s = MSelect" "c = CaseErr" "errC s = err # q"
      "s' = s\<lparr>errC := q, mainG := MErrReceived err\<rparr>"
  | (Spin) "mainG s = MSelect" "c = CaseErr" "errC s = []" "errC_closed s" "s' = s"
  | (TakeCtx) "mainG s = MSelect" "c = CaseCtx" "ctx_Err s \<noteq> None" "s' = s\<lparr>mainG := MCtxWait\<rparr>"
  | (TakeDone) "mainG s = MSelect" "c = CaseDone" "doneC_closed s" "s' = s\<lparr>mainG := MDoneWait\<rparr>"
proof -
  from assms have m: "mainG s = MSelect"
    by (simp add: stepMainSelect_def split: if_splits)
  show ?thesis
  proof (cases c)
    case CaseErr
    with assms m that(1,2) show ?thesis
      by (cases "errC s") (simp_all add: stepMainSelect_def split: if_splits)
  next
    case CaseCtx
    with assms m that(3) show ?thesis
      by (simp add: stepMainSelect_def split: if_splits)
  next
    case CaseDone
    with assms m that(4) show ?thesis
      by (simp add: stepMainSelect_def split: if_splits)
  qed
qed

lemma stepMain_elim [consumes 1, case_names ErrCloseTwice ErrClose ErrReturn CtxWaited CtxReturn CtxDefault CtxCloseTwice CtxClose DoneErr DoneOk]:
  assumes "stepMain s = Some s'"
  obtains
    (ErrCloseTwice) err where "mainG s = MErrReceived err" "doneC_closed s" "s' = s\<lparr>panicked := True\<rparr>"
  | (ErrClose) err where "mainG s = MErrReceived err" "\<not> doneC_closed s"
      "s' = s\<lparr>doneC_closed := True, mainG := MErrWait err\<rparr>"
  | (ErrReturn) err where "mainG s = MErrWait err" "allExited (workers s)"
      "s' = s\<lparr>errC_closed := True, mainG := MReturned Result_zero (Some err)\<rparr>"
  | (CtxWaited) "mainG s = MCtxWait" "allExited (workers s)" "s' = s\<lparr>mainG := MCtxCheck\<rparr>"
  | (CtxReturn) "mainG s = MCtxCheck" "doneC_closed s"
      "s' = s\<lparr>errC_closed := True, mainG := MReturned Result_zero (ctx_Err s)\<rparr>"
  | (CtxDefault) "mainG s = MCtxCheck" "\<not> doneC_closed s" "s' = s\<lparr>mainG := MCtxClose\<rparr>"
  | (CtxCloseTwice) "mainG s = MCtxClose" "doneC_closed s" "s' = s\<lparr>panicked := True\<rparr>"
  | (CtxClose) "mainG s = MCtxClose" "\<not> doneC_closed s"
      "s' = s\<lparr>doneC_closed := True, errC_closed := True, mainG := MReturned Result_zero (ctx_Err s)\<rparr>"
  | (DoneErr) err q where "mainG s = MDoneWait" "allExited (workers s)" "errC s = err # q"
      "s' = s\<lparr>errC := q, errC_closed := True, mainG := MReturned Result_zero (Some err)\<rparr>"
  | (DoneOk) "mainG s = MDoneWait" "allExited (workers s)" "errC s = []"
      "s' = s\<lparr>errC_closed := True,
                mainG := MReturned \<lparr>Found = mFound s, Inspected = mInspected s,
                                    Processed = mProcessed s\<rparr> None\<rparr>"
proof (cases "mainG s")
  case MSelect
  with assms show ?thesis by (simp add: stepMain_def)
next
  case (MErrReceived err)
  with assms that(1,2) show ?thesis by (simp add: stepMain_def split: if_splits)
next
  case (MErrWait err)
  with assms that(3) show ?thesis by (simp add: stepMain_def split: if_splits)
next
  case MCtxWait
  with assms that(4) show ?thesis by (simp add: stepMain_def split: if_splits)
next
  case MCtxCheck
  with assms that(5,6) show ?thesis by (simp add: stepMain_def split: if_splits)
next
  case MCtxClose
  with assms that(7,8) show ?thesis by (simp add: stepMain_def split: if_splits)
next
  case MDoneWait
  with assms that(9,10) show ?thesis
    by (cases "errC s") (simp_all add: stepMain_def split: if_splits)
next
  case (MReturned res err)
  with assms show ?thesis by (simp add: stepMain_def)
qed


lemma step_elim [consumes 1, case_names Producer Worker Main MainSelect Cancel]:
  assumes "step f proc n a s = Some s'"
  obtains
    (Producer) "a = Producer" "\<not> panicked s" "stepProducer f n s = Some s'"
  | (Worker) i where "a = Worker i" "\<not> panicked s" "stepWorker proc n i s = Some s'"
  | (Main) "a = Main" "\<not> panicked s" "stepMain s = Some s'"
  | (MainSelect) c where "a = MainSelect c" "\<not> panicked s" "stepMainSelect c s = Some s'"
  | (Cancel) e where "a = Cancel e" "\<not> panicked s" "ctx_Err s = None" "s' = s\<lparr>ctx_Err := Some e\<rparr>"
  using assms
  by (cases a) (simp_all add: step_def stepCancel_def split: if_splits)

lemma run_invariant:
  assumes "\<And>a s s'. I s \<Longrightarrow> P a \<Longrightarrow> step f proc n a s = Some s' \<Longrightarrow> I s'"
    and "I s" and "\<forall>a\<in>set sched. P a"
  shows "I (run f proc n sched s)"
  using assms(2,3)
proof (induction sched arbitrary: s)
  case Nil
  then show ?case by simp
next
  case (Cons a sched)
  show ?case
  proof (cases "step f proc n a s")
    case None
    with Cons show ?thesis by simp
  next
    case (Some s')
    with Cons.prems have "I s'" using assms(1) [of s a s'] by simp
    with Cons Some show ?thesis by simp
  qed
qed

lemma run_append: "run f proc n (xs @ ys) s = run f proc n ys (run f proc n xs s)"
  by (induction xs arbitrary: s) simp_all

lemma ball_list_update:
  assumes "\<forall>x\<in>set xs. P x" and "P y"
  shows "\<forall>x\<in>set (xs[i := y]). P x"
  using assms set_update_subset_insert [of xs i y] by auto

text \<open>The counters follow the producer.\<close>

lemma producerCounts_stepProducer:
  assumes inv: "producerCounts f all s" and st: "stepProducer f n s = Some s'"
  shows "producerCounts f all s'"
  using st
proof (cases rule: stepProducer_elim)
  case CloseTwice
  with inv show ?thesis by (simp add: producerCounts_def)
next
  case CloseDone
  with inv have "prefix all all \<and> mInspected s = int (length all) \<and>
        mProcessed s = int (length (filter f all))"
    by (simp add: producerCounts_def)
  then have "\<exists>seen'. prefix seen' all \<and> mInspected s = int (length seen') \<and>
        mProcessed s = int (length (filter f seen'))" by (rule exI)
  with CloseDone show ?thesis by (simp add: producerCounts_def)
next
  case (Inspect r rs)
  with inv show ?thesis by (simp add: producerCounts_def)
next
  case (Reject r rs)
  with inv obtain seen where seen: "all = seen @ r # rs" "mInspected s = int (length seen) + 1"
    "mProcessed s = int (length (filter f seen))"
    by (auto simp: producerCounts_def)
  have "all = (seen @ [r]) @ rs \<and> mInspected s = int (length (seen @ [r])) \<and>
        mProcessed s = int (length (filter f (seen @ [r])))"
    using seen Reject(2) by simp
  then have "\<exists>seen'. all = seen' @ rs \<and> mInspected s = int (length seen') \<and>
        mProcessed s = int (length (filter f seen'))" by (rule exI)
  with Reject show ?thesis by (simp add: producerCounts_def)
next
  case (Accept r rs)
  with inv show ?thesis by (simp add: producerCounts_def)
next
  case (Stop r rs)
  with inv obtain seen where seen: "all = seen @ r # rs" "f r" "mInspected s = int (length seen) + 1"
    "mProcessed s = int (length (filter f seen)) + 1"
    by (auto simp: producerCounts_def)
  have "prefix (seen @ [r]) all \<and> mInspected s = int (length (seen @ [r])) \<and>
        mProcessed s = int (length (filter f (seen @ [r])))"
    using seen by simp
  then have "\<exists>seen'. prefix seen' all \<and> mInspected s = int (length seen') \<and>
        mProcessed s = int (length (filter f seen'))" by (rule exI)
  with Stop show ?thesis by (simp add: producerCounts_def)
next
  case (Default r rs)
  with inv show ?thesis by (simp add: producerCounts_def)
next
  case (Send r rs)
  with inv obtain seen where seen: "all = seen @ r # rs" "f r" "mInspected s = int (length seen) + 1"
    "mProcessed s = int (length (filter f seen)) + 1"
    by (auto simp: producerCounts_def)
  have "all = (seen @ [r]) @ rs \<and> mInspected s = int (length (seen @ [r])) \<and>
        mProcessed s = int (length (filter f (seen @ [r])))"
    using seen by simp
  then have "\<exists>seen'. all = seen' @ rs \<and> mInspected s = int (length seen') \<and>
        mProcessed s = int (length (filter f seen'))" by (rule exI)
  with Send show ?thesis by (simp add: producerCounts_def)
next
  case Deferred
  with inv show ?thesis by (simp add: producerCounts_def)
qed

lemma producerCounts_finished:
  assumes "producerCounts f all s" and "producer s = PLoop []"
  shows "mInspected s = int (length all) \<and> mProcessed s = int (length (filter f all))"
  using assms by (auto simp: producerCounts_def)

lemma producerCounts_ordered:
  assumes "producerCounts f all s"
  shows "0 \<le> mProcessed s \<and> mProcessed s \<le> mInspected s \<and> mInspected s \<le> int (length all)"
proof (cases "producer s")
  case (PLoop rs)
  with assms obtain seen where "all = seen @ rs" "mInspected s = int (length seen)"
    "mProcessed s = int (length (filter f seen))"
    by (auto simp: producerCounts_def)
  moreover have "int (length (filter f seen)) \<le> int (length seen)" by simp
  ultimately show ?thesis by simp
next
  case (PInspected r rs)
  with assms obtain seen where "all = seen @ r # rs" "mInspected s = int (length seen) + 1"
    "mProcessed s = int (length (filter f seen))"
    by (auto simp: producerCounts_def)
  moreover have "int (length (filter f seen)) \<le> int (length seen) + 1"
    using length_filter_le [of f seen] by linarith
  ultimately show ?thesis by simp
next
  case (PSelect r rs)
  with assms obtain seen where "all = seen @ r # rs" "mInspected s = int (length seen) + 1"
    "mProcessed s = int (length (filter f seen)) + 1"
    by (auto simp: producerCounts_def)
  moreover have "int (length (filter f seen)) \<le> int (length seen)" by simp
  ultimately show ?thesis by simp
next
  case (PSend r rs)
  with assms obtain seen where "all = seen @ r # rs" "mInspected s = int (length seen) + 1"
    "mProcessed s = int (length (filter f seen)) + 1"
    by (auto simp: producerCounts_def)
  moreover have "int (length (filter f seen)) \<le> int (length seen)" by simp
  ultimately show ?thesis by simp
next
  case PDeferred
  with assms obtain seen where "prefix seen all" "mInspected s = int (length seen)"
    "mProcessed s = int (length (filter f seen))"
    by (auto simp: producerCounts_def)
  moreover have "int (length (filter f seen)) \<le> int (length seen)" by simp
  moreover from \<open>prefix seen all\<close> have "int (length seen) \<le> int (length all)"
    by (simp add: prefix_length_le)
  ultimately show ?thesis by simp
next
  case PExit
  with assms obtain seen where "prefix seen all" "mInspected s = int (length seen)"
    "mProcessed s = int (length (filter f seen))"
    by (auto simp: producerCounts_def)
  moreover have "int (length (filter f seen)) \<le> int (length seen)" by simp
  moreover from \<open>prefix seen all\<close> have "int (length seen) \<le> int (length all)"
    by (simp add: prefix_length_le)
  ultimately show ?thesis by simp
qed


text \<open>The counters' invariant holds in every state of every run.\<close>

lemma stepWorker_frame:
  assumes "stepWorker proc n i s = Some s'"
  shows "producer s' = producer s \<and> mInspected s' = mInspected s \<and> mProcessed s' = mProcessed s \<and>
         mFound s' = mFound s \<and> mainG s' = mainG s \<and> doneC_closed s' = doneC_closed s \<and>
         ctx_Err s' = ctx_Err s \<and> repoC_closed s' = repoC_closed s \<and> errC_closed s' = errC_closed s"
  using assms by (cases rule: stepWorker_elim) simp_all

lemma countersInv_frame:
  assumes "producer s' = producer s" "mInspected s' = mInspected s" "mProcessed s' = mProcessed s"
    "mFound s' = mFound s" "mainG s' = mainG s" "doneC_closed s' = doneC_closed s"
    "ctx_Err s' = ctx_Err s"
  shows "countersInv f all s' = countersInv f all s"
  using assms
  by (simp add: countersInv_def producerCounts_def producerFinished_def cong: producer_pc.case_cong)

lemma countersInv_initial: "countersInv f (concat repoPages) (initial repoPages n)"
  by (simp add: countersInv_def producerCounts_def initial_def countFound_eq)

lemma countersInv_stepProducer:
  assumes inv: "countersInv f all s" and st: "stepProducer f n s = Some s'"
  shows "countersInv f all s'"
proof -
  from inv have pc: "producerCounts f all s" by (simp add: countersInv_def)
  then have pc': "producerCounts f all s'" using st by (rule producerCounts_stepProducer)
  from st show ?thesis
  proof (cases rule: stepProducer_elim)
    case CloseTwice
    with inv pc' show ?thesis by (simp add: countersInv_def producerFinished_def)
  next
    case CloseDone
    with pc have "mInspected s = int (length all) \<and> mProcessed s = int (length (filter f all))"
      by (intro producerCounts_finished)
    with CloseDone inv pc' show ?thesis by (simp add: countersInv_def producerFinished_def)
  next
    case (Inspect r rs)
    with inv pc' show ?thesis by (auto simp: countersInv_def producerFinished_def)
  next
    case (Reject r rs)
    with inv pc' show ?thesis by (auto simp: countersInv_def producerFinished_def)
  next
    case (Accept r rs)
    with inv pc' show ?thesis by (auto simp: countersInv_def producerFinished_def)
  next
    case (Stop r rs)
    with inv pc' show ?thesis by (auto simp: countersInv_def producerFinished_def)
  next
    case (Default r rs)
    with inv pc' show ?thesis by (auto simp: countersInv_def producerFinished_def)
  next
    case (Send r rs)
    with inv pc' show ?thesis by (auto simp: countersInv_def producerFinished_def)
  next
    case Deferred
    with inv pc' show ?thesis by (auto simp: countersInv_def producerFinished_def)
  qed
qed

lemma producerCounts_frame:
  assumes "producer s' = producer s \<and> mInspected s' = mInspected s \<and> mProcessed s' = mProcessed s"
  shows "producerCounts f all s' = producerCounts f all s"
  using assms by (simp add: producerCounts_def cong: producer_pc.case_cong)

lemma stepMain_frame:
  assumes "stepMain s = Some s'"
  shows "producer s' = producer s \<and> mInspected s' = mInspected s \<and> mProcessed s' = mProcessed s"
  using assms by (cases rule: stepMain_elim) simp_all

lemma stepMainSelect_frame:
  assumes "stepMainSelect c s = Some s'"
  shows "producer s' = producer s \<and> mInspected s' = mInspected s \<and> mProcessed s' = mProcessed s"
  using assms by (cases rule: stepMainSelect_elim) simp_all

lemma countersInv_stepMain:
  assumes inv: "countersInv f all s" and st: "stepMain s = Some s'"
  shows "countersInv f all s'"
proof -
  from inv have "producerCounts f all s" by (simp add: countersInv_def)
  then have pc': "producerCounts f all s'"
    using producerCounts_frame [OF stepMain_frame [OF st]] by simp
  from st show ?thesis
  proof (cases rule: stepMain_elim)
    case DoneOk
    with inv have "doneC_closed s" by (simp add: countersInv_def)
    with inv DoneOk have "producerFinished f all s" by (auto simp: countersInv_def)
    with inv DoneOk pc' show ?thesis
      by (simp add: countersInv_def producerFinished_def finalResult_def)
  qed (use inv pc' in \<open>auto simp: countersInv_def producerFinished_def\<close>)
qed

lemma countersInv_stepMainSelect:
  assumes inv: "countersInv f all s" and st: "stepMainSelect c s = Some s'"
  shows "countersInv f all s'"
proof -
  from inv have "producerCounts f all s" by (simp add: countersInv_def)
  then have pc': "producerCounts f all s'"
    using producerCounts_frame [OF stepMainSelect_frame [OF st]] by simp
  from st show ?thesis
    by (cases rule: stepMainSelect_elim)
      (use inv pc' in \<open>auto simp: countersInv_def producerFinished_def\<close>)
qed

lemma countersInv_step:
  assumes inv: "countersInv f all s" and st: "step f proc n a s = Some s'"
  shows "countersInv f all s'"
  using st
proof (cases rule: step_elim)
  case Producer
  with inv show ?thesis by (auto intro: countersInv_stepProducer)
next
  case (Worker i)
  then have "countersInv f all s' = countersInv f all s"
    by (intro countersInv_frame) (simp_all add: stepWorker_frame)
  with inv show ?thesis by simp
next
  case Main
  with inv show ?thesis by (auto intro: countersInv_stepMain)
next
  case (MainSelect c)
  with inv show ?thesis by (auto intro: countersInv_stepMainSelect)
next
  case (Cancel e)
  then have "countersInv f all s' = countersInv f all (s\<lparr>ctx_Err := Some e\<rparr>)" by simp
  from inv have "producerCounts f all s" by (simp add: countersInv_def)
  then have "producerCounts f all s'"
    using producerCounts_frame [of s' s f all] Cancel by simp
  with inv Cancel show ?thesis
    by (auto simp: countersInv_def producerFinished_def)
qed

lemma countersInv_run:
  "countersInv f (concat repoPages) (runForReposConcurrently repoPages n f proc sched)"
  unfolding runForReposConcurrently_def
  by (rule run_invariant [where P = "\<lambda>a. True"]) (auto intro: countersInv_step countersInv_initial)

text \<open>Records and errors in flight.\<close>

lemma inFlight_initial: "inFlight f (concat repoPages) (initial repoPages n)"
  by (simp add: inFlight_def initial_def)

lemma inFlight_stepProducer:
  assumes inv: "inFlight f all s" and st: "stepProducer f n s = Some s'"
  shows "inFlight f all s'"
  using st by (cases rule: stepProducer_elim) (use inv in \<open>auto simp: inFlight_def\<close>)

lemma inFlight_stepWorker:
  assumes inv: "inFlight f all s" and st: "stepWorker proc n i s = Some s'"
  shows "inFlight f all s'"
proof -
  let ?P = "workerRecordOk f all"
  from inv have ws: "\<forall>w\<in>set (workers s). ?P w" by (simp add: inFlight_def)
  have upd: "\<forall>w\<in>set ((workers s)[i := y]). ?P w" if "?P y" for y
    using ws that by (rule ball_list_update)
  from st show ?thesis
  proof (cases rule: stepWorker_elim)
    case (Receive repo q)
    with inv have "?P (WSelect repo)" by (simp add: inFlight_def)
    then have "\<forall>w\<in>set ((workers s)[i := WSelect repo]). ?P w" by (rule upd)
    with inv Receive show ?thesis by (simp add: inFlight_def)
  next
    case Leave
    have "\<forall>w\<in>set ((workers s)[i := WExit]). ?P w" by (rule upd) simp
    with inv Leave show ?thesis by (simp add: inFlight_def)
  next
    case (Skip repo)
    have "\<forall>w\<in>set ((workers s)[i := WRange]). ?P w" by (rule upd) simp
    with inv Skip show ?thesis by (simp add: inFlight_def)
  next
    case (Ok repo)
    have "\<forall>w\<in>set ((workers s)[i := WRange]). ?P w" by (rule upd) simp
    with inv Ok show ?thesis by (simp add: inFlight_def)
  next
    case (NoBranch repo err)
    have "\<forall>w\<in>set ((workers s)[i := WRange]). ?P w" by (rule upd) simp
    with inv NoBranch show ?thesis by (simp add: inFlight_def)
  next
    case (Fatal repo err)
    have "\<forall>w\<in>set ((workers s)[i := WSend (Wrapf ''processing %q: %w'' [Name repo] err)]). ?P w"
      by (rule upd) simp
    with inv Fatal show ?thesis by (simp add: inFlight_def)
  next
    case (SendClosed e)
    with inv show ?thesis by (simp add: inFlight_def)
  next
    case (SendErr e)
    have "\<forall>w\<in>set ((workers s)[i := WExit]). ?P w" by (rule upd) simp
    with inv SendErr show ?thesis by (simp add: inFlight_def)
  qed
qed

lemma inFlight_frame:
  assumes "producer s' = producer s" "repoC s' = repoC s" "workers s' = workers s"
  shows "inFlight f all s' = inFlight f all s"
  using assms by (simp add: inFlight_def)

lemma stepMain_frame2:
  assumes "stepMain s = Some s'"
  shows "producer s' = producer s \<and> repoC s' = repoC s \<and> workers s' = workers s \<and>
         ctx_Err s' = ctx_Err s"
  using assms by (cases rule: stepMain_elim) simp_all

lemma stepMainSelect_frame2:
  assumes "stepMainSelect c s = Some s'"
  shows "producer s' = producer s \<and> repoC s' = repoC s \<and> workers s' = workers s \<and>
         ctx_Err s' = ctx_Err s"
  using assms by (cases rule: stepMainSelect_elim) simp_all

lemma inFlight_step:
  assumes inv: "inFlight f all s" and st: "step f proc n a s = Some s'"
  shows "inFlight f all s'"
  using st
proof (cases rule: step_elim)
  case Producer
  with inv show ?thesis by (auto intro: inFlight_stepProducer)
next
  case (Worker i)
  with inv show ?thesis by (auto intro: inFlight_stepWorker)
next
  case Main
  then have "inFlight f all s' = inFlight f all s"
    by (intro inFlight_frame) (simp_all add: stepMain_frame2)
  with inv show ?thesis by simp
next
  case (MainSelect c)
  then have "inFlight f all s' = inFlight f all s"
    by (intro inFlight_frame) (simp_all add: stepMainSelect_frame2)
  with inv show ?thesis by simp
next
  case (Cancel e)
  with inv show ?thesis by (simp add: inFlight_def)
qed

lemma errorsInv_initial: "errorsInv f proc (concat repoPages) (initial repoPages n)"
  by (simp add: errorsInv_def initial_def)

lemma stepProducer_frame:
  assumes "stepProducer f n s = Some s'"
  shows "errC s' = errC s \<and> workers s' = workers s \<and> mainG s' = mainG s \<and> ctx_Err s' = ctx_Err s \<and>
         errC_closed s' = errC_closed s"
  using assms by (cases rule: stepProducer_elim) simp_all

lemma errorsInv_frame:
  assumes "errC s' = errC s" "workers s' = workers s" "mainG s' = mainG s" "ctx_Err s' = ctx_Err s"
  shows "errorsInv f proc all s' = errorsInv f proc all s"
  using assms by (simp add: errorsInv_def)

lemma errorsInv_stepWorker:
  assumes fl: "inFlight f all s" and inv: "errorsInv f proc all s"
    and st: "stepWorker proc n i s = Some s'"
  shows "errorsInv f proc all s'"
proof -
  let ?P = "workerErrorOk (workerError f proc all)"
  from inv have ws: "\<forall>w\<in>set (workers s). ?P w" by (simp add: errorsInv_def)
  have upd: "\<forall>w\<in>set ((workers s)[i := y]). ?P w" if "?P y" for y
    using ws that by (rule ball_list_update)
  have keep: "errorsInv f proc all (s\<lparr>workers := (workers s)[i := y]\<rparr>)" if "?P y" for y
    using inv upd [OF that] by (simp add: errorsInv_def)
  from st show ?thesis
  proof (cases rule: stepWorker_elim)
    case (Receive repo q)
    have "errorsInv f proc all (s\<lparr>workers := (workers s)[i := WSelect repo]\<rparr>)" by (rule keep) simp
    with Receive show ?thesis by (simp add: errorsInv_def)
  next
    case Leave
    with keep [of WExit] show ?thesis by simp
  next
    case (Skip repo)
    with keep [of WRange] show ?thesis by simp
  next
    case (Ok repo)
    with keep [of WRange] show ?thesis by simp
  next
    case (NoBranch repo err)
    have "errorsInv f proc all (s\<lparr>workers := (workers s)[i := WRange]\<rparr>)" by (rule keep) simp
    with NoBranch show ?thesis by (simp add: errorsInv_def)
  next
    case (Fatal repo err)
    from Fatal(1,2) have "WSelect repo \<in> set (workers s)" by (metis nth_mem)
    with fl have "repo \<in> set all \<and> f repo" by (auto simp: inFlight_def)
    with Fatal(4,5) have "workerError f proc all (Wrapf ''processing %q: %w'' [Name repo] err)"
      by (auto simp: workerError_def)
    then have "errorsInv f proc all
        (s\<lparr>workers := (workers s)[i := WSend (Wrapf ''processing %q: %w'' [Name repo] err)]\<rparr>)"
      by (intro keep) simp
    with Fatal show ?thesis by simp
  next
    case (SendClosed e)
    with inv show ?thesis by (simp add: errorsInv_def)
  next
    case (SendErr e)
    from SendErr(1,2) have "WSend e \<in> set (workers s)" by (metis nth_mem)
    with ws have e: "workerError f proc all e" by auto
    have "errorsInv f proc all (s\<lparr>workers := (workers s)[i := WExit]\<rparr>)" by (rule keep) simp
    with e SendErr show ?thesis by (simp add: errorsInv_def)
  qed
qed

lemma errorsInv_stepMain:
  assumes inv: "errorsInv f proc all s" and st: "stepMain s = Some s'"
  shows "errorsInv f proc all s'"
  using st by (cases rule: stepMain_elim) (use inv in \<open>auto simp: errorsInv_def\<close>)

lemma errorsInv_stepMainSelect:
  assumes inv: "errorsInv f proc all s" and st: "stepMainSelect c s = Some s'"
  shows "errorsInv f proc all s'"
  using st by (cases rule: stepMainSelect_elim) (use inv in \<open>auto simp: errorsInv_def\<close>)

lemma provenance_step:
  assumes inv: "inFlight f all s \<and> errorsInv f proc all s" and st: "step f proc n a s = Some s'"
  shows "inFlight f all s' \<and> errorsInv f proc all s'"
proof
  from inv st show "inFlight f all s'" by (auto intro: inFlight_step)
  from st show "errorsInv f proc all s'"
  proof (cases rule: step_elim)
    case Producer
    then have "errorsInv f proc all s' = errorsInv f proc all s"
      by (intro errorsInv_frame) (simp_all add: stepProducer_frame)
    with inv show ?thesis by simp
  next
    case (Worker i)
    with inv show ?thesis by (auto intro: errorsInv_stepWorker)
  next
    case Main
    with inv show ?thesis by (auto intro: errorsInv_stepMain)
  next
    case (MainSelect c)
    with inv show ?thesis by (auto intro: errorsInv_stepMainSelect)
  next
    case (Cancel e)
    show ?thesis
    proof (cases "mainG s")
      case (MReturned res err)
      with inv Cancel show ?thesis by (cases err) (auto simp: errorsInv_def)
    qed (use inv Cancel in \<open>auto simp: errorsInv_def\<close>)
  qed
qed

lemma provenance_run:
  "inFlight f (concat repoPages) (runForReposConcurrently repoPages n f proc sched) \<and>
   errorsInv f proc (concat repoPages) (runForReposConcurrently repoPages n f proc sched)"
  unfolding runForReposConcurrently_def
  by (rule run_invariant [where P = "\<lambda>a. True"])
    (auto intro: provenance_step [THEN conjunct1] provenance_step [THEN conjunct2]
      inFlight_initial errorsInv_initial)

text \<open>Once a fatal error has been seen, the caller does not return without an error.\<close>

lemma list_ex_update_keep:
  assumes "list_ex P xs" and "i < length xs" and "\<not> P (xs ! i) \<or> P y"
  shows "list_ex P (xs[i := y])"
proof -
  from assms(1) obtain j where j: "j < length xs" "P (xs ! j)"
    by (auto simp: list_ex_iff in_set_conv_nth)
  show ?thesis
  proof (cases "j = i")
    case True
    with j assms(3) have "P y" by auto
    with assms(2) show ?thesis by (auto simp: list_ex_iff set_update_memI)
  next
    case False
    with j have "P (xs[i := y] ! j)" "j < length (xs[i := y])" by simp_all
    then show ?thesis unfolding list_ex_iff by (metis nth_mem)
  qed
qed

lemma allExited_no_WSend: "allExited ws \<Longrightarrow> \<not> list_ex isWSend ws"
  by (auto simp: allExited_def list_all_iff list_ex_iff)

lemma allExited_stepWorker:
  assumes "allExited (workers s)"
  shows "stepWorker proc n i s = None"
proof (rule ccontr)
  assume "stepWorker proc n i s \<noteq> None"
  then obtain s' where st: "stepWorker proc n i s = Some s'" by auto
  have ex: "workers s ! i = WExit" if "i < length (workers s)"
    using assms that by (simp add: allExited_def list_all_iff)
  from st show False by (cases rule: stepWorker_elim) (use ex in auto)
qed

lemma returnedOkInv_initial: "returnedOkInv (initial repoPages n)"
  by (simp add: returnedOkInv_def initial_def)

lemma returnedOkInv_step:
  assumes inv: "returnedOkInv s" and st: "step f proc n a s = Some s'"
  shows "returnedOkInv s'"
  using st
proof (cases rule: step_elim)
  case Producer
  from Producer(3) have "mainG s' = mainG s \<and> workers s' = workers s \<and> errC s' = errC s \<and>
      ctx_Err s' = ctx_Err s"
    by (cases rule: stepProducer_elim) simp_all
  with inv show ?thesis by (simp add: returnedOkInv_def)
next
  case (Worker i)
  show ?thesis
  proof (cases "\<exists>res. mainG s = MReturned res None")
    case True
    with inv have "allExited (workers s)" by (auto simp: returnedOkInv_def)
    then have "stepWorker proc n i s = None" by (rule allExited_stepWorker)
    with Worker show ?thesis by simp
  next
    case False
    moreover from Worker(3) have "mainG s' = mainG s \<and> ctx_Err s' = ctx_Err s"
      by (simp add: stepWorker_frame)
    ultimately show ?thesis using inv by (simp add: returnedOkInv_def)
  qed
next
  case Main
  from Main(3) show ?thesis
    by (cases rule: stepMain_elim) (use inv in \<open>auto simp: returnedOkInv_def\<close>)
next
  case (MainSelect c)
  from MainSelect(3) show ?thesis
    by (cases rule: stepMainSelect_elim) (use inv in \<open>auto simp: returnedOkInv_def\<close>)
next
  case (Cancel e)
  with inv show ?thesis by (simp add: returnedOkInv_def)
qed

lemma failureSeen_step:
  assumes seen: "failureSeen s" and ok: "returnedOkInv s" and st: "step f proc n a s = Some s'"
  shows "failureSeen s'"
  using st
proof (cases rule: step_elim)
  case Producer
  from Producer(3) have "mainG s' = mainG s \<and> workers s' = workers s \<and> errC s' = errC s"
    by (cases rule: stepProducer_elim) simp_all
  with seen show ?thesis by (simp add: failureSeen_def)
next
  case (Worker i)
  from Worker(3) show ?thesis
  proof (cases rule: stepWorker_elim)
    case (Receive repo q)
    with seen show ?thesis by (auto simp: failureSeen_def intro: list_ex_update_keep)
  next
    case Leave
    with seen show ?thesis by (auto simp: failureSeen_def intro: list_ex_update_keep)
  next
    case (Skip repo)
    with seen show ?thesis by (auto simp: failureSeen_def intro: list_ex_update_keep)
  next
    case (Ok repo)
    with seen show ?thesis by (auto simp: failureSeen_def intro: list_ex_update_keep)
  next
    case (NoBranch repo err)
    with seen show ?thesis by (auto simp: failureSeen_def intro: list_ex_update_keep)
  next
    case (Fatal repo err)
    with seen show ?thesis by (auto simp: failureSeen_def intro: list_ex_update_keep)
  next
    case (SendClosed e)
    with seen show ?thesis by (simp add: failureSeen_def)
  next
    case (SendErr e)
    then show ?thesis by (simp add: failureSeen_def)
  qed
next
  case Main
  from Main(3) show ?thesis
  proof (cases rule: stepMain_elim)
    case DoneOk
    with seen have False
      by (auto simp: failureSeen_def dest: allExited_no_WSend)
    then show ?thesis ..
  next
    case CtxReturn
    with ok show ?thesis by (cases "ctx_Err s") (simp_all add: failureSeen_def returnedOkInv_def)
  next
    case CtxClose
    with ok show ?thesis by (cases "ctx_Err s") (simp_all add: failureSeen_def returnedOkInv_def)
  qed (use seen in \<open>auto simp: failureSeen_def\<close>)
next
  case (MainSelect c)
  from MainSelect(3) show ?thesis
    by (cases rule: stepMainSelect_elim) (use seen in \<open>auto simp: failureSeen_def\<close>)
next
  case (Cancel e)
  with seen show ?thesis by (simp add: failureSeen_def)
qed

text \<open>After \<open>doneC\<close> is closed nothing new is enqueued.\<close>

lemma doneAfterReturn_initial: "doneAfterReturn (initial repoPages n)"
  by (simp add: doneAfterReturn_def initial_def)

lemma doneC_closed_step:
  assumes "doneC_closed s" and "step f proc n a s = Some s'"
  shows "doneC_closed s'"
  using assms(2)
proof (cases rule: step_elim)
  case Producer
  from Producer(3) show ?thesis
    by (cases rule: stepProducer_elim) (use assms(1) in simp_all)
next
  case (Worker i)
  with assms(1) show ?thesis by (simp add: stepWorker_frame)
next
  case Main
  from Main(3) show ?thesis
    by (cases rule: stepMain_elim) (use assms(1) in simp_all)
next
  case (MainSelect c)
  from MainSelect(3) show ?thesis
    by (cases rule: stepMainSelect_elim) (use assms(1) in simp_all)
next
  case (Cancel e)
  with assms(1) show ?thesis by simp
qed

lemma doneAfterReturn_step:
  assumes inv: "doneAfterReturn s" and st: "step f proc n a s = Some s'"
  shows "doneAfterReturn s'"
  using st
proof (cases rule: step_elim)
  case Producer
  from Producer(3) show ?thesis
    by (cases rule: stepProducer_elim) (use inv in \<open>simp_all add: doneAfterReturn_def\<close>)
next
  case (Worker i)
  with inv show ?thesis by (simp add: doneAfterReturn_def stepWorker_frame)
next
  case Main
  from Main(3) show ?thesis
    by (cases rule: stepMain_elim) (use inv in \<open>simp_all add: doneAfterReturn_def\<close>)
next
  case (MainSelect c)
  from MainSelect(3) show ?thesis
    by (cases rule: stepMainSelect_elim) (use inv in \<open>simp_all add: doneAfterReturn_def\<close>)
next
  case (Cancel e)
  with inv show ?thesis by (simp add: doneAfterReturn_def)
qed

lemma stoppedDispatch_step:
  assumes inv: "stoppedDispatch k s" and st: "step f proc n a s = Some s'"
  shows "stoppedDispatch k s'"
  using st
proof (cases rule: step_elim)
  case Producer
  from Producer(3) show ?thesis
    by (cases rule: stepProducer_elim)
      (use inv in \<open>simp_all add: stoppedDispatch_def beingSent_def\<close>)
next
  case (Worker i)
  from Worker(3) show ?thesis
    by (cases rule: stepWorker_elim)
      (use inv in \<open>simp_all add: stoppedDispatch_def beingSent_def\<close>)
next
  case Main
  from Main(3) show ?thesis
    by (cases rule: stepMain_elim)
      (use inv in \<open>simp_all add: stoppedDispatch_def beingSent_def\<close>)
next
  case (MainSelect c)
  from MainSelect(3) show ?thesis
    by (cases rule: stepMainSelect_elim)
      (use inv in \<open>simp_all add: stoppedDispatch_def beingSent_def\<close>)
next
  case (Cancel e)
  with inv show ?thesis by (simp add: stoppedDispatch_def)
qed

text \<open>Harmless records and an undisturbed schedule.\<close>

lemma list_ex_update_none:
  assumes "\<not> list_ex P xs" and "\<not> P y"
  shows "\<not> list_ex P (xs[i := y])"
  using assms set_update_subset_insert [of xs i y] by (auto simp: list_ex_iff)

lemma quietInv_initial: "quietInv (initial repoPages n)"
  by (simp add: quietInv_def initial_def list_ex_iff)

lemma quietInv_step:
  assumes inv: "quietInv s" and fl: "inFlight f all s"
    and harm: "\<forall>repo\<in>set all. f repo \<longrightarrow> harmless proc repo"
    and a: "\<not> isCancel a" and st: "step f proc n a s = Some s'"
  shows "quietInv s'"
  using st
proof (cases rule: step_elim)
  case Producer
  from Producer(3) show ?thesis
    by (cases rule: stepProducer_elim) (use inv in \<open>auto simp: quietInv_def\<close>)
next
  case (Worker i)
  from inv have nows: "\<not> list_ex isWSend (workers s)" by (simp add: quietInv_def)
  have keep: "quietInv (s\<lparr>workers := (workers s)[i := y]\<rparr>)" if "\<not> isWSend y" for y
    using inv list_ex_update_none [OF nows that] by (simp add: quietInv_def)
  from Worker(3) show ?thesis
  proof (cases rule: stepWorker_elim)
    case (Receive repo q)
    have "quietInv (s\<lparr>workers := (workers s)[i := WSelect repo]\<rparr>)" by (rule keep) simp
    with Receive show ?thesis by (simp add: quietInv_def)
  next
    case Leave
    with keep [of WExit] show ?thesis by simp
  next
    case (Skip repo)
    with keep [of WRange] show ?thesis by simp
  next
    case (Ok repo)
    with keep [of WRange] show ?thesis by simp
  next
    case (NoBranch repo err)
    have "quietInv (s\<lparr>workers := (workers s)[i := WRange]\<rparr>)" by (rule keep) simp
    with NoBranch show ?thesis by (simp add: quietInv_def)
  next
    case (Fatal repo err)
    from Fatal(1,2) have "WSelect repo \<in> set (workers s)" by (metis nth_mem)
    with fl have "repo \<in> set all \<and> f repo" by (auto simp: inFlight_def)
    with harm have "harmless proc repo" by simp
    with Fatal(4,5) have False by (simp add: harmless_def)
    then show ?thesis ..
  next
    case (SendClosed e)
    from SendClosed(1,2) have "WSend e \<in> set (workers s)" by (metis nth_mem)
    with nows have False by (auto simp: list_ex_iff)
    then show ?thesis ..
  next
    case (SendErr e)
    from SendErr(1,2) have "WSend e \<in> set (workers s)" by (metis nth_mem)
    with nows have False by (auto simp: list_ex_iff)
    then show ?thesis ..
  qed
next
  case Main
  from Main(3) show ?thesis
    by (cases rule: stepMain_elim) (use inv in \<open>auto simp: quietInv_def\<close>)
next
  case (MainSelect c)
  from MainSelect(3) show ?thesis
    by (cases rule: stepMainSelect_elim) (use inv in \<open>auto simp: quietInv_def\<close>)
next
  case (Cancel e)
  with a show ?thesis by simp
qed

text \<open>The invariants along runs.\<close>

lemma returnedOkInv_run: "returnedOkInv (runForReposConcurrently repoPages n f proc sched)"
  unfolding runForReposConcurrently_def
  by (rule run_invariant [where P = "\<lambda>a. True"]) (auto intro: returnedOkInv_step returnedOkInv_initial)

lemma doneAfterReturn_run: "doneAfterReturn (runForReposConcurrently repoPages n f proc sched)"
  unfolding runForReposConcurrently_def
  by (rule run_invariant [where P = "\<lambda>a. True"])
    (auto intro: doneAfterReturn_step doneAfterReturn_initial)

lemma failureSeen_run:
  assumes "failureSeen s" and "returnedOkInv s"
  shows "failureSeen (run f proc n sched s) \<and> returnedOkInv (run f proc n sched s)"
  by (rule run_invariant [where P = "\<lambda>a. True"])
    (use assms in \<open>auto intro: failureSeen_step returnedOkInv_step\<close>)

lemma failureSeen_returned:
  assumes "failureSeen s" and "returnedOkInv s" and "mainG s = MReturned res err"
  shows "err \<noteq> None"
proof
  assume "err = None"
  with assms(2,3) have "allExited (workers s)" "errC s = []" by (simp_all add: returnedOkInv_def)
  with assms(1,3) \<open>err = None\<close> show False
    by (auto simp: failureSeen_def dest: allExited_no_WSend)
qed

lemma stoppedDispatch_run:
  assumes "stoppedDispatch k s"
  shows "stoppedDispatch k (run f proc n sched s)"
  by (rule run_invariant [where P = "\<lambda>a. True"]) (use assms in \<open>auto intro: stoppedDispatch_step\<close>)

lemma quietInv_run:
  assumes harm: "\<forall>repo\<in>set (concat repoPages). f repo \<longrightarrow> harmless proc repo"
    and und: "\<forall>a\<in>set sched. \<not> isCancel a"
  shows "quietInv (runForReposConcurrently repoPages n f proc sched)"
proof -
  let ?I = "\<lambda>s. quietInv s \<and> inFlight f (concat repoPages) s"
  have "?I (run f proc n sched (initial repoPages n))"
  proof (rule run_invariant [where P = "\<lambda>a. \<not> isCancel a"])
    show "?I (initial repoPages n)" by (simp add: quietInv_initial inFlight_initial)
    show "\<forall>a\<in>set sched. \<not> isCancel a" by (rule und)
    show "?I s'" if "?I s" "\<not> isCancel a" "step f proc n a s = Some s'" for a s s'
      using that harm quietInv_step [of s f "concat repoPages" proc a n s']
        inFlight_step [of f "concat repoPages" s proc n a s']
      by blast
  qed
  then show ?thesis by (simp add: runForReposConcurrently_def)
qed

(*END-DISPATCH-LEMMAS*)

section \<open>Result counters\<close>

lemma scenario_run:
  "mainG (runForReposConcurrently scenarioPages 2 defaultSearchFilterIn (\<lambda>r. None) (roundRobin 30)) =
     MReturned \<lparr>Found = 6, Inspected = 6, Processed = 4\<rparr> None"
  by code_simp

text \<open>
  Claim C3. In every state of every run of the dispatcher (any pages, any filter, any
  results of processing, any schedule, cut at any point) the counters satisfy
  \<open>0 \<le> mProcessed \<le> mInspected \<le> mFound\<close>, where \<open>mFound\<close> is the number of records of
  all pages; a returned Result satisfies the same inequalities, and a Result returned
  without an error holds the number of all records as Found and as Inspected and the
  number of records accepted by the filter as Processed.
\<close>

theorem counters_ordered_at_every_point:
  "s = runForReposConcurrently repoPages nOfWorkers filterIn proc sched \<Longrightarrow>
   0 \<le> mProcessed s \<and> mProcessed s \<le> mInspected s \<and> mInspected s \<le> mFound s \<and>
   mFound s = int (length (concat repoPages)) \<and>
   (\<forall>res err. mainG s = MReturned res err \<longrightarrow>
      0 \<le> Processed res \<and> Processed res \<le> Inspected res \<and> Inspected res \<le> Found res) \<and>
   (\<forall>res. mainG s = MReturned res None \<longrightarrow>
      res = \<lparr>Found = int (length (concat repoPages)), Inspected = int (length (concat repoPages)),
             Processed = int (length (filter filterIn (concat repoPages)))\<rparr>)"
proof -
  assume s: "s = runForReposConcurrently repoPages nOfWorkers filterIn proc sched"
  have inv: "countersInv filterIn (concat repoPages) s"
    unfolding s by (rule countersInv_run)
  then have "producerCounts filterIn (concat repoPages) s" by (simp add: countersInv_def)
  then have ord: "0 \<le> mProcessed s \<and> mProcessed s \<le> mInspected s \<and>
      mInspected s \<le> int (length (concat repoPages))"
    by (rule producerCounts_ordered)
  from inv have found: "mFound s = int (length (concat repoPages))" by (simp add: countersInv_def)
  have ret: "0 \<le> Processed res \<and> Processed res \<le> Inspected res \<and> Inspected res \<le> Found res"
    if "mainG s = MReturned res err" for res err
  proof (cases err)
    case None
    with inv that have "res = finalResult filterIn (concat repoPages)" by (simp add: countersInv_def)
    then show ?thesis by (simp add: finalResult_def)
  next
    case (Some e)
    with inv that have "res = Result_zero" by (simp add: countersInv_def)
    then show ?thesis by (simp add: Result_zero_def)
  qed
  have ok: "res = \<lparr>Found = int (length (concat repoPages)), Inspected = int (length (concat repoPages)),
             Processed = int (length (filter filterIn (concat repoPages)))\<rparr>"
    if "mainG s = MReturned res None" for res
    using inv that by (simp add: countersInv_def finalResult_def)
  from ord found ret ok show ?thesis by simp
qed

theorem counters_ordered_at_every_point_witness:
  "mainG (runForReposConcurrently scenarioPages 2 defaultSearchFilterIn (\<lambda>r. None) (roundRobin 30)) =
     MReturned \<lparr>Found = 6, Inspected = 6, Processed = 4\<rparr> None \<and>
   0 \<le> mProcessed (runForReposConcurrently scenarioPages 2 defaultSearchFilterIn (\<lambda>r. None) (roundRobin 7)) \<and>
   mProcessed (runForReposConcurrently scenarioPages 2 defaultSearchFilterIn (\<lambda>r. None) (roundRobin 7))
     \<le> mInspected (runForReposConcurrently scenarioPages 2 defaultSearchFilterIn (\<lambda>r. None) (roundRobin 7)) \<and>
   mInspected (runForReposConcurrently scenarioPages 2 defaultSearchFilterIn (\<lambda>r. None) (roundRobin 7))
     \<le> mFound (runForReposConcurrently scenarioPages 2 defaultSearchFilterIn (\<lambda>r. None) (roundRobin 7)) \<and>
   mFound (runForReposConcurrently scenarioPages 2 defaultSearchFilterIn (\<lambda>r. None) (roundRobin 7)) = 6"
  using counters_ordered_at_every_point [OF refl, of scenarioPages 2 defaultSearchFilterIn
      "\<lambda>r. None" "roundRobin 7"] scenario_run
  by (simp add: scenarioPages_def)

end
